theory Spec2Isabelle
  imports Complex_Main "HOL-Library.Multiset" "HOL-Library.AList"
begin

section \<open>Data model (types.ts)\<close>

text \<open>
  A JavaScript \<open>number\<close> is modelled as a \<open>real\<close>: grid coordinates and sizes are small
  integers or halves and are exact in both. An optional field of \<open>LayoutObject\<close> is an
  \<open>option\<close>. The fields \<open>id\<close>, \<open>type\<close>, \<open>x\<close>, \<open>y\<close>, \<open>width\<close> and \<open>height\<close> carry
  the prefix \<open>desk_\<close>, since the bare names clash with constants and variables of HOL.
\<close>

record LayoutObject =
  desk_id :: string
  desk_type :: string
  desk_x :: real
  desk_y :: real
  desk_width :: real
  desk_height :: real
  rotation :: "real option"
  students :: "string option list option"
  userBlockedSeats :: "nat list option"

section \<open>Constants of LayoutEditor.tsx\<close>

definition GRID_SIZE :: real where
  "GRID_SIZE = 16"

definition DESK_WIDTH_UNITS :: real where
  "DESK_WIDTH_UNITS = 8"

definition DESK_HEIGHT_UNITS :: real where
  "DESK_HEIGHT_UNITS = 4"

section \<open>The JavaScript library functions the code calls\<close>

text \<open>\<open>Math.round\<close>: the nearest integer, a half rounded up.\<close>

definition Math_round :: "real \<Rightarrow> real" where
  "Math_round r = of_int \<lfloor>r + 1 / 2\<rfloor>"

text \<open>The decimal rendering of a non-negative integer, as a template literal prints it.\<close>

definition digit_char :: "nat \<Rightarrow> char" where
  "digit_char d = ''0123456789'' ! d"

function show_nat :: "nat \<Rightarrow> string" where
  "show_nat n = (if n < 10 then [digit_char n] else show_nat (n div 10) @ [digit_char (n mod 10)])"
  by pat_completeness auto
termination
  by (relation "measure (\<lambda>n. n)") auto

declare show_nat.simps [simp del]

text \<open>\<open>a || b\<close> on an optional string: the empty string is falsy as well.\<close>

definition or_string :: "string option \<Rightarrow> string \<Rightarrow> string" where
  "or_string a b = (case a of None \<Rightarrow> b | Some s \<Rightarrow> if s = [] then b else s)"

definition or_zero :: "real option \<Rightarrow> real" where
  "or_zero a = (case a of None \<Rightarrow> 0 | Some v \<Rightarrow> v)"

text \<open>
  \<open>Array.prototype.sort\<close> with a comparator. The sort is stable, and for a consistent
  comparator (a total preorder on the elements) its result is the one stable sorted
  permutation; it is modelled by the stable insertion sort that inserts the elements from
  the last to the first, each before the first element it does not come after.  For a
  comparator that is not consistent the language leaves the order of the result to the
  implementation, and \<open>js_sort\<close> need not return the order of a given engine: it is used
  for such a comparator only where the statement holds for every order, or on an input
  whose neighbours are in order already, which the sort leaves as it is.
\<close>

fun js_insort :: "('a \<Rightarrow> 'a \<Rightarrow> real) \<Rightarrow> 'a \<Rightarrow> 'a list \<Rightarrow> 'a list" where
  "js_insort cmp a [] = [a]"
| "js_insort cmp a (b # bs) = (if cmp a b \<le> 0 then a # b # bs else b # js_insort cmp a bs)"

definition js_sort :: "('a \<Rightarrow> 'a \<Rightarrow> real) \<Rightarrow> 'a list \<Rightarrow> 'a list" where
  "js_sort cmp xs = foldr (js_insort cmp) xs []"

text \<open>\<open>[...new Set(xs)]\<close>: the distinct values in the order of their first occurrence.\<close>

definition uniq :: "'a list \<Rightarrow> 'a list" where
  "uniq xs = fold (\<lambda>v seen. if v \<in> set seen then seen else seen @ [v]) xs []"

text \<open>\<open>Array.prototype.join\<close> on strings.\<close>

fun join :: "string \<Rightarrow> string list \<Rightarrow> string" where
  "join sep [] = []"
| "join sep [s] = s"
| "join sep (s # t # ts) = s @ sep @ join sep (t # ts)"

text \<open>\<open>String.prototype.split\<close> with a separator of one character: the empty string splits
  into one empty piece.\<close>

fun split :: "char \<Rightarrow> string \<Rightarrow> string list" where
  "split sep [] = [[]]"
| "split sep (c # cs) =
     (if c = sep then [] # split sep cs
      else (case split sep cs of [] \<Rightarrow> [[c]] | piece # pieces \<Rightarrow> (c # piece) # pieces))"

text \<open>\<open>String.prototype.trim\<close>; the white space of the code units below 256.\<close>

definition is_space :: "char \<Rightarrow> bool" where
  "is_space c \<longleftrightarrow> c \<in> set [CHR '' '', CHR 0x09, CHR 0x0A, CHR 0x0B, CHR 0x0C, CHR 0x0D, CHR 0xA0]"

definition trim :: "string \<Rightarrow> string" where
  "trim s = rev (dropWhile is_space (rev (dropWhile is_space s)))"

text \<open>\<open>String.prototype.padEnd\<close> with the default filler, a space.\<close>

definition padEnd :: "nat \<Rightarrow> string \<Rightarrow> string" where
  "padEnd n s = s @ replicate (n - length s) CHR '' ''"

section \<open>Collision policy of the editor (checkCollision, handleDrop)\<close>

text \<open>The test of one loop iteration of \<open>checkCollision\<close>.\<close>

definition rects_collide :: "LayoutObject \<Rightarrow> LayoutObject \<Rightarrow> bool" where
  "rects_collide newDesk desk \<longleftrightarrow>
     desk_x newDesk < desk_x desk + desk_width desk \<and>
     desk_x newDesk + desk_width newDesk > desk_x desk \<and>
     desk_y newDesk < desk_y desk + desk_height desk \<and>
     desk_y newDesk + desk_height newDesk > desk_y desk"

fun checkCollision :: "LayoutObject \<Rightarrow> LayoutObject list \<Rightarrow> bool" where
  "checkCollision newDesk [] = False"
| "checkCollision newDesk (desk # existingDesks) =
     (if desk_id desk = desk_id newDesk then checkCollision newDesk existingDesks
      else if rects_collide newDesk desk then True
      else checkCollision newDesk existingDesks)"

text \<open>
  The payload of a drag (\<open>dragData.current\<close>). \<open>drag_id\<close> is absent for a desk dragged from the
  palette; the offsets are set by \<open>handleDragStart\<close>.
\<close>

record DragData =
  drag_type :: string
  drag_width :: real
  drag_height :: real
  isNew :: bool
  drag_id :: "string option"
  offsetX :: "real option"
  offsetY :: "real option"

text \<open>
  What \<open>handleDrop\<close> reads and writes: the desk set (React state), the drag payload (a ref)
  and the lines written to the console. Nothing else leaves the handler: it returns
  \<open>undefined\<close> and sets no error state.
\<close>

record EditorState =
  layoutObjects :: "LayoutObject list"
  dragData :: "DragData option"
  console :: "string list"

text \<open>The drop event: pointer position and the editor's bounding rectangle (absent when
  \<open>editorRef.current\<close> is null).\<close>

record DropEvent =
  clientX :: real
  clientY :: real
  editorRect :: "(real \<times> real) option"

text \<open>The desk \<open>handleDrop\<close> builds from the drag payload; \<open>now\<close> is \<open>Date.now()\<close>.\<close>

definition dropped_desk :: "nat \<Rightarrow> DragData \<Rightarrow> DropEvent \<Rightarrow> real \<times> real \<Rightarrow> LayoutObject" where
  "dropped_desk now dd e rect =
     (let px = clientX e - fst rect -
               (if isNew dd then drag_width dd * GRID_SIZE / 2 else or_zero (offsetX dd));
          py = clientY e - snd rect -
               (if isNew dd then drag_height dd * GRID_SIZE / 2 else or_zero (offsetY dd));
          gridX = Math_round (px / GRID_SIZE);
          gridY = Math_round (py / GRID_SIZE)
      in \<lparr> desk_id = or_string (drag_id dd) (''desk-'' @ show_nat now),
           desk_type = drag_type dd,
           desk_x = gridX,
           desk_y = gridY,
           desk_width = drag_width dd,
           desk_height = drag_height dd,
           rotation = Some 0,
           students = None,
           userBlockedSeats = Some [] \<rparr>)"

definition handleDrop :: "nat \<Rightarrow> DropEvent \<Rightarrow> EditorState \<Rightarrow> EditorState" where
  "handleDrop now e st =
     (case (dragData st, editorRect e) of
        (Some dd, Some rect) \<Rightarrow>
          (let newDesk = dropped_desk now dd e rect;
               otherDesks = filter (\<lambda>d. desk_id d \<noteq> desk_id newDesk) (layoutObjects st)
           in if checkCollision newDesk otherDesks
              then st \<lparr> console := console st @ [''Collision detected!''] \<rparr>
              else if isNew dd
              then st \<lparr> layoutObjects := layoutObjects st @ [newDesk], dragData := None \<rparr>
              else
                (let moved =
                       (case find (\<lambda>d. desk_id d = desk_id newDesk) (layoutObjects st) of
                          Some existingDesk \<Rightarrow>
                            newDesk \<lparr> rotation := rotation existingDesk,
                                      desk_width := desk_width existingDesk,
                                      desk_height := desk_height existingDesk,
                                      userBlockedSeats := userBlockedSeats existingDesk \<rparr>
                        | None \<Rightarrow> newDesk)
                 in st \<lparr> layoutObjects :=
                             map (\<lambda>d. if desk_id d = desk_id newDesk then moved else d)
                               (layoutObjects st),
                           dragData := None \<rparr>))
      | _ \<Rightarrow> st)"

text \<open>
  The reading of the collision policy: two rectangles overlap when a point lies in both,
  each rectangle taken as the product of the half-open intervals \<open>[x, x + width)\<close> and
  \<open>[y, y + height)\<close>.
\<close>

definition in_rect :: "LayoutObject \<Rightarrow> real \<times> real \<Rightarrow> bool" where
  "in_rect d p \<longleftrightarrow>
     desk_x d \<le> fst p \<and> fst p < desk_x d + desk_width d \<and>
     desk_y d \<le> snd p \<and> snd p < desk_y d + desk_height d"

definition rects_overlap :: "LayoutObject \<Rightarrow> LayoutObject \<Rightarrow> bool" where
  "rects_overlap a b \<longleftrightarrow> (\<exists>p. in_rect a p \<and> in_rect b p)"

section \<open>Layout to matrix (convertObjectsToLayoutMatrix)\<close>

text \<open>
  The position map is an object indexed by the strings \<open>"{row}-{col}"\<close>: an association list
  in the order of insertion, which is the order a \<open>for ... in\<close> loop enumerates such keys in.
  An assignment overwrites the value of a key that is present and appends a new key.
\<close>

type_synonym PositionMap = "(string \<times> string) list"

definition pos_key :: "nat \<Rightarrow> nat \<Rightarrow> string" where
  "pos_key rowIndex colIndex = show_nat rowIndex @ ''-'' @ show_nat colIndex"

definition pm_set :: "PositionMap \<Rightarrow> string \<Rightarrow> string \<Rightarrow> PositionMap" where
  "pm_set positionMap k v = AList.update k v positionMap"

definition pm_get :: "PositionMap \<Rightarrow> string \<Rightarrow> string option" where
  "pm_get positionMap k = map_of positionMap k"

text \<open>A. The comparator of the numbering (front to back, then left to right).\<close>

definition ui_cmp :: "LayoutObject \<Rightarrow> LayoutObject \<Rightarrow> real" where
  "ui_cmp a b =
     (let yDifference = desk_y a - desk_y b
      in if \<bar>yDifference\<bar> > DESK_HEIGHT_UNITS / 2 then desk_y b - desk_y a
         else desk_x a - desk_x b)"

text \<open>
  The comparator is consistent when being within the tolerance of each other is
  transitive on the desks (\<open>rows_consistent\<close> below); then \<open>uiSortedObjects\<close> is the order the
  program numbers the desks in.  On other layouts the order is the implementation's, and
  only the statements that hold for every order are made without that hypothesis.
\<close>

definition uiSortedObjects :: "LayoutObject list \<Rightarrow> LayoutObject list" where
  "uiSortedObjects objects = js_sort ui_cmp objects"

text \<open>\<open>deskNumberMap\<close>: a later \<open>set\<close> of the same id overwrites an earlier one.\<close>

fun number_desks :: "nat \<Rightarrow> LayoutObject list \<Rightarrow> (string \<rightharpoonup> nat) \<Rightarrow> (string \<rightharpoonup> nat)" where
  "number_desks index [] m = m"
| "number_desks index (desk # desks) m = number_desks (index + 1) desks (m(desk_id desk \<mapsto> index + 1))"

definition deskNumberMap :: "LayoutObject list \<Rightarrow> (string \<rightharpoonup> nat)" where
  "deskNumberMap objects = number_desks 0 (uiSortedObjects objects) Map.empty"

text \<open>1. Rows by proximity of the vertical centres, back to front.\<close>

definition y_cmp :: "LayoutObject \<Rightarrow> LayoutObject \<Rightarrow> real" where
  "y_cmp a b = desk_y a - desk_y b"

definition x_cmp :: "LayoutObject \<Rightarrow> LayoutObject \<Rightarrow> real" where
  "x_cmp a b = desk_x a - desk_x b"

text \<open>
  The loop over \<open>sortedByY\<close> from index 1. \<open>currentRow\<close> is never empty; it is kept as its
  first desk \<open>firstDeskInRow\<close> and the desks pushed after it.
\<close>

fun row_loop ::
  "LayoutObject list list \<Rightarrow> LayoutObject \<Rightarrow> LayoutObject list \<Rightarrow> LayoutObject list \<Rightarrow>
   LayoutObject list list" where
  "row_loop rows firstDeskInRow pushed [] = rows @ [js_sort x_cmp (firstDeskInRow # pushed)]"
| "row_loop rows firstDeskInRow pushed (currentDesk # rest) =
     (if \<bar>(desk_y currentDesk + desk_height currentDesk / 2) -
           (desk_y firstDeskInRow + desk_height firstDeskInRow / 2)\<bar> < DESK_HEIGHT_UNITS
      then row_loop rows firstDeskInRow (pushed @ [currentDesk]) rest
      else row_loop (rows @ [js_sort x_cmp (firstDeskInRow # pushed)]) currentDesk [] rest)"

definition group_rows :: "LayoutObject list \<Rightarrow> LayoutObject list list" where
  "group_rows objects =
     (case js_sort y_cmp objects of
        [] \<Rightarrow> []
      | first # rest \<Rightarrow> row_loop [] first [] rest)"

text \<open>2. Global column positions: clusters of the distinct horizontal centres.\<close>

definition cluster_center :: "real list \<Rightarrow> real" where
  "cluster_center currentCluster = fold (\<lambda>val sum. sum + val) currentCluster 0 / real (length currentCluster)"

text \<open>\<open>currentCluster\<close> is never empty: it is kept as the values before its last one, and its
  last one.\<close>

fun cluster_loop :: "real list \<Rightarrow> real list \<Rightarrow> real \<Rightarrow> real list \<Rightarrow> real list" where
  "cluster_loop columnCenters earlier lastInCluster [] =
     columnCenters @ [cluster_center (earlier @ [lastInCluster])]"
| "cluster_loop columnCenters earlier lastInCluster (c # rest) =
     (if c - lastInCluster < DESK_WIDTH_UNITS / 2
      then cluster_loop columnCenters (earlier @ [lastInCluster]) c rest
      else cluster_loop (columnCenters @ [cluster_center (earlier @ [lastInCluster])]) [] c rest)"

definition column_centers :: "LayoutObject list \<Rightarrow> real list" where
  "column_centers objects =
     (let allDeskCenters = map (\<lambda>d. desk_x d + desk_width d / 2) objects;
          sortedUniqueCenters = js_sort (\<lambda>a b. a - b) (uniq allDeskCenters)
      in case sortedUniqueCenters of
           [] \<Rightarrow> []
         | c # rest \<Rightarrow> cluster_loop [] [] c rest)"

text \<open>3. The grid. The nearest column: \<open>minDistance\<close> starts at \<open>Infinity\<close> (here \<open>None\<close>) and
  \<open>bestColIndex\<close> at \<open>-1\<close> (here \<open>None\<close>); a strictly smaller distance wins.\<close>

fun best_col_loop :: "real \<Rightarrow> nat \<Rightarrow> real list \<Rightarrow> nat option \<times> real option \<Rightarrow> nat option \<times> real option" where
  "best_col_loop deskCenter index [] acc = acc"
| "best_col_loop deskCenter index (center # centers) (bestColIndex, minDistance) =
     (let distance = \<bar>deskCenter - center\<bar>
      in if (case minDistance of None \<Rightarrow> True | Some m \<Rightarrow> distance < m)
         then best_col_loop deskCenter (index + 1) centers (Some index, Some distance)
         else best_col_loop deskCenter (index + 1) centers (bestColIndex, minDistance))"

definition best_col :: "real list \<Rightarrow> real \<Rightarrow> nat option" where
  "best_col columnCenters deskCenter = fst (best_col_loop deskCenter 0 columnCenters (None, None))"

text \<open>\<open>newRow[i] === '--' || newRow[i] === undefined\<close>: a read beyond the end is \<open>undefined\<close>.\<close>

definition cell_free :: "string list \<Rightarrow> nat \<Rightarrow> bool" where
  "cell_free newRow i \<longleftrightarrow> (if i < length newRow then newRow ! i = ''--'' else True)"

text \<open>
  One iteration of \<open>row.forEach\<close>. The index written is below the length of \<open>newRow\<close> in every
  reachable state (lemma \<open>place_desk_in_range\<close> below), so the write is a list update.
\<close>

definition place_desk ::
  "nat \<Rightarrow> nat \<Rightarrow> real list \<Rightarrow> LayoutObject \<Rightarrow> string list \<times> PositionMap \<Rightarrow> string list \<times> PositionMap" where
  "place_desk rowIndex numCols columnCenters desk st =
     (let newRow = fst st; positionMap = snd st;
          deskCenter = desk_x desk + desk_width desk / 2
      in case best_col columnCenters deskCenter of
           None \<Rightarrow> (newRow, positionMap)
         | Some bestColIndex \<Rightarrow>
             if cell_free newRow bestColIndex
             then (newRow[bestColIndex := desk_type desk],
                   pm_set positionMap (pos_key rowIndex bestColIndex) (desk_id desk))
             else (case find (cell_free newRow) [0..<numCols] of
                     Some i \<Rightarrow>
                       (newRow[i := desk_type desk],
                        pm_set positionMap (pos_key rowIndex i) (desk_id desk))
                   | None \<Rightarrow>
                       (newRow @ [desk_type desk],
                        pm_set positionMap (pos_key rowIndex (length newRow)) (desk_id desk))))"

text \<open>\<open>rows.map((row, rowIndex) => ...)\<close>, the position map threaded through the rows.\<close>

fun build_grid ::
  "nat \<Rightarrow> real list \<Rightarrow> nat \<Rightarrow> LayoutObject list list \<Rightarrow> PositionMap \<Rightarrow> string list list \<times> PositionMap" where
  "build_grid numCols columnCenters rowIndex [] positionMap = ([], positionMap)"
| "build_grid numCols columnCenters rowIndex (row # rows) positionMap =
     (let filled = fold (place_desk rowIndex numCols columnCenters) row
                     (replicate numCols ''--'', positionMap);
          below = build_grid numCols columnCenters (rowIndex + 1) rows (snd filled)
      in (fst filled # fst below, snd below))"

text \<open>All rows to the length of the longest one.\<close>

definition pad_rows :: "string list list \<Rightarrow> string list list" where
  "pad_rows layoutGrid =
     (let maxRowLength = fold (\<lambda>row m. max m (length row)) layoutGrid 0
      in map (\<lambda>row. row @ replicate (maxRowLength - length row) ''--'') layoutGrid)"

text \<open>B. The numbered grid. \<open>if (deskId)\<close> holds for a string that is not empty.\<close>

definition numbered_cell :: "PositionMap \<Rightarrow> (string \<rightharpoonup> nat) \<Rightarrow> nat \<Rightarrow> nat \<Rightarrow> string \<Rightarrow> string" where
  "numbered_cell positionMap numbers rowIndex colIndex deskType =
     (if deskType \<noteq> ''--'' then
        (case pm_get positionMap (pos_key rowIndex colIndex) of
           None \<Rightarrow> ''--''
         | Some deskId \<Rightarrow>
             if deskId = [] then ''--''
             else (case numbers deskId of
                     None \<Rightarrow> ''--''
                   | Some deskNumber \<Rightarrow> ''L'' @ show_nat deskNumber))
      else ''--'')"

definition numbered_grid :: "PositionMap \<Rightarrow> (string \<rightharpoonup> nat) \<Rightarrow> string list list \<Rightarrow> string list list" where
  "numbered_grid positionMap numbers finalLayoutGrid =
     map (\<lambda>(rowIndex, row).
            map (\<lambda>(colIndex, deskType). numbered_cell positionMap numbers rowIndex colIndex deskType)
              (enumerate 0 row))
       (enumerate 0 finalLayoutGrid)"

record Conversion =
  matrix :: string
  layout :: "string list list"
  positionMap :: PositionMap
  numberedMatrix :: string

definition convertObjectsToLayoutMatrix :: "LayoutObject list \<Rightarrow> Conversion" where
  "convertObjectsToLayoutMatrix objects =
     (if length objects = 0
      then \<lparr> matrix = [], layout = [], positionMap = [], numberedMatrix = [] \<rparr>
      else
        (let numbers = deskNumberMap objects;
             rows = group_rows objects
         in if length rows = 0
            then \<lparr> matrix = [], layout = [], positionMap = [], numberedMatrix = [] \<rparr>
            else
              (let columnCenters = column_centers objects;
                   numCols = (if length columnCenters > 0 then length columnCenters else 1);
                   built = build_grid numCols columnCenters 0 rows [];
                   finalLayoutGrid = pad_rows (fst built);
                   numberedGrid = numbered_grid (snd built) numbers finalLayoutGrid
               in \<lparr> matrix = join [CHR 0x0A] (map (join '','') finalLayoutGrid),
                    layout = finalLayoutGrid,
                    positionMap = snd built,
                    numberedMatrix =
                      join [CHR 0x0A] (map (\<lambda>row. join '','' (map (padEnd 5) row)) numberedGrid) \<rparr>)))"

section \<open>Notions for the statements about the conversion\<close>

text \<open>
  The state of one row while its desks are placed: \<open>cols ! j\<close> is the column that holds the
  \<open>j\<close>-th desk placed; these columns are distinct, they hold the type codes, and every other
  cell holds "--".
\<close>

definition row_ok :: "nat \<Rightarrow> string list \<Rightarrow> nat list \<Rightarrow> LayoutObject list \<Rightarrow> bool" where
  "row_ok numCols newRow cols ds \<longleftrightarrow>
     length cols = length ds \<and> distinct cols \<and> (\<forall>c \<in> set cols. c < length newRow) \<and>
     numCols \<le> length newRow \<and>
     (\<forall>j < length ds. newRow ! (cols ! j) = desk_type (ds ! j)) \<and>
     (\<forall>c < length newRow. c \<notin> set cols \<longrightarrow> newRow ! c = ''--'')"

text \<open>The entries the placement of a row adds to the position map, in order.\<close>

definition row_entries :: "nat \<Rightarrow> nat list \<Rightarrow> LayoutObject list \<Rightarrow> PositionMap" where
  "row_entries r cols ds = map (\<lambda>(c, d). (pos_key r c, desk_id d)) (zip cols ds)"

fun grid_ok :: "nat \<Rightarrow> string list list \<Rightarrow> nat list list \<Rightarrow> LayoutObject list list \<Rightarrow> bool" where
  "grid_ok numCols [] [] [] = True"
| "grid_ok numCols (newRow # grid) (cols # colss) (ds # rows) =
     (row_ok numCols newRow cols ds \<and> grid_ok numCols grid colss rows)"
| "grid_ok numCols grid colss rows = False"

fun grid_entries :: "nat \<Rightarrow> nat list list \<Rightarrow> LayoutObject list list \<Rightarrow> PositionMap" where
  "grid_entries r (cols # colss) (ds # rows) = row_entries r cols ds @ grid_entries (r + 1) colss rows"
| "grid_entries r colss rows = []"

text \<open>The length of the longest row, as \<open>pad_rows\<close> computes it.\<close>

definition max_len :: "string list list \<Rightarrow> nat" where
  "max_len grid = fold (\<lambda>row m. max m (length row)) grid 0"

text \<open>
  The cells of a text matrix, read the way \<open>parseLayoutMatrixToObjects\<close> reads them: lines,
  then cells between commas, each trimmed.
\<close>

definition read_matrix :: "string \<Rightarrow> string list list" where
  "read_matrix m = map (\<lambda>line. map trim (split CHR '','' line)) (split (CHR 0x0A) m)"

text \<open>A type code of the data model: a non-empty string over 0 and 1.\<close>

definition valid_typeCode :: "string \<Rightarrow> bool" where
  "valid_typeCode t \<longleftrightarrow> t \<noteq> [] \<and> set t \<subseteq> {CHR ''0'', CHR ''1''}"

text \<open>A cell text that survives serialisation and reading: not empty, no comma, no line
  feed, no white space.\<close>

definition plain_cell :: "string \<Rightarrow> bool" where
  "plain_cell s \<longleftrightarrow> s \<noteq> [] \<and> (\<forall>c \<in> set s. c \<noteq> CHR '','' \<and> c \<noteq> CHR 0x0A \<and> \<not> is_space c)"

text \<open>
  The visual order of the numbering, read off the positions: two desks are in the same row
  when their \<open>y\<close> differ by at most half a desk height; a desk comes before another desk of
  its row when it is further left, and before a desk of another row when it is nearer the
  front (larger \<open>y\<close>).
\<close>

definition near :: "LayoutObject \<Rightarrow> LayoutObject \<Rightarrow> bool" where
  "near a b \<longleftrightarrow> \<bar>desk_y a - desk_y b\<bar> \<le> DESK_HEIGHT_UNITS / 2"

definition comes_before :: "LayoutObject \<Rightarrow> LayoutObject \<Rightarrow> bool" where
  "comes_before a b \<longleftrightarrow> (if near a b then desk_x a < desk_x b else desk_y a > desk_y b)"

text \<open>The rows are unambiguous: being in the same row is transitive on the desks.\<close>

definition rows_consistent :: "LayoutObject list \<Rightarrow> bool" where
  "rows_consistent objs \<longleftrightarrow>
     (\<forall>a \<in> set objs. \<forall>b \<in> set objs. \<forall>c \<in> set objs. near a b \<and> near b c \<longrightarrow> near a c)"

text \<open>The labels of the numbered matrix, read from its text, and the label of a desk: the
  text of the cell whose key the position map sends to the desk's id.\<close>

definition labels :: "Conversion \<Rightarrow> string list" where
  "labels conv = filter (\<lambda>cell. cell \<noteq> ''--'') (concat (read_matrix (numberedMatrix conv)))"

definition has_label :: "Conversion \<Rightarrow> LayoutObject \<Rightarrow> nat \<Rightarrow> bool" where
  "has_label conv d k \<longleftrightarrow>
     (\<exists>r < length (read_matrix (numberedMatrix conv)).
      \<exists>c < length (read_matrix (numberedMatrix conv) ! r).
        pm_get (positionMap conv) (pos_key r c) = Some (desk_id d) \<and>
        read_matrix (numberedMatrix conv) ! r ! c = ''L'' @ show_nat k)"

text \<open>The text of the numbered cell of a desk, given the desk numbers.\<close>

definition label_of :: "(string \<rightharpoonup> nat) \<Rightarrow> LayoutObject \<Rightarrow> string" where
  "label_of numbers d = (case numbers (desk_id d) of None \<Rightarrow> ''--'' | Some n \<Rightarrow> ''L'' @ show_nat n)"

text \<open>
  The test of the row grouping: the vertical centres of two desks are less than a desk
  height apart.
\<close>

definition same_row :: "LayoutObject \<Rightarrow> LayoutObject \<Rightarrow> bool" where
  "same_row a b \<longleftrightarrow>
     \<bar>(desk_y a + desk_height a / 2) - (desk_y b + desk_height b / 2)\<bar> < DESK_HEIGHT_UNITS"

section \<open>Matrix to layout (parseLayoutMatrixToObjects)\<close>






section \<open>The AI client (geminiService.ts)\<close>

text \<open>
  A value that \<open>JSON.parse\<close> returns. An object is the list of its properties, in order;
  a read takes the first match.
\<close>

datatype json =
    JNull
  | JBool bool
  | JNum real
  | JStr string
  | JArr "json list"
  | JObj "(string \<times> json) list"

text \<open>
  The user-facing messages of the application, one constructor for each string literal
  of the source (the Czech texts, diacritics dropped here):
  \<^item> \<open>Msg_InvalidFormat\<close>: "AI vratilo neplatny format dat (chybi pole 'seating')."
  \<^item> \<open>Msg_Communication\<close>: "Pri komunikaci s AI sluzbou nastala chyba. Zkuste to prosim znovu."
  \<^item> \<open>Msg_EmptyLayout\<close>: "Rozlozeni lavic je prazdne. Pridejte lavice v editoru."
  \<^item> \<open>Msg_EmptyRoster\<close>: "Seznam zaku je prazdny."
  \<^item> \<open>Msg_InsufficientSeats n m\<close>: "Nedostatek mist. Pocet zaku (n) presahuje pocet
    dostupnych mist (m)."
  \<^item> \<open>Msg_FromAI v\<close>: the value of the field \<open>error\<close> of the AI's answer, passed on as it is.
\<close>

datatype message =
    Msg_InvalidFormat
  | Msg_Communication
  | Msg_EmptyLayout
  | Msg_EmptyRoster
  | Msg_InsufficientSeats nat int
  | Msg_FromAI json

text \<open>What a call can throw: an \<open>Error\<close> made by the code, the runtime's \<open>TypeError\<close> and
  \<open>SyntaxError\<close>, and a failure of the transport.\<close>

datatype exn =
    Error message
  | TypeError
  | SyntaxError
  | TransportFailure

text \<open>
  A line of the conditions sent to the AI: the user's text, or the fixed sentence "desk
  number \<open>n\<close>, seat number \<open>m\<close> from the left is blocked", kept as its two numbers.
\<close>

datatype condition =
    UserText string
  | SeatBlocked nat nat

text \<open>The five arguments of \<open>generateSeatingArrangement\<close>.\<close>

record GenRequest =
  req_layoutMatrix :: string
  req_students :: "string list"
  req_conditions :: "condition list"
  req_numberedMatrix :: string
  req_currentArrangementMatrix :: "string option"

text \<open>
  The prompt: which of the two templates, and the values spliced into it in the order of
  their appearance. The fixed text of a template is not modelled.
\<close>

datatype prompt =
    ModificationPrompt string string "string list" "condition list" string
  | GenerationPrompt string string "string list" "condition list"

record GenResponse =
  response_text :: "string option"

record GenResult =
  seating :: "json option"
  error :: "message option"

text \<open>What the function does: the value its promise resolves to (\<open>Inl\<close>: it rejects), and
  what it writes with \<open>console.error\<close>.\<close>

record ServiceOutcome =
  returned :: "exn + GenResult"
  logged :: "exn list"

text \<open>Truthiness of a JSON value; \<open>None\<close> is \<open>undefined\<close>.\<close>

fun truthy :: "json \<Rightarrow> bool" where
  "truthy JNull = False"
| "truthy (JBool b) = b"
| "truthy (JNum n) = (n \<noteq> 0)"
| "truthy (JStr s) = (s \<noteq> [])"
| "truthy (JArr xs) = True"
| "truthy (JObj kvs) = True"

definition truthy_opt :: "json option \<Rightarrow> bool" where
  "truthy_opt v = (case v of None \<Rightarrow> False | Some j \<Rightarrow> truthy j)"

fun isArray :: "json option \<Rightarrow> bool" where
  "isArray (Some (JArr xs)) = True"
| "isArray v = False"

text \<open>Reading the property \<open>error\<close> or \<open>seating\<close>: of \<open>null\<close> it throws, of an object it is the
  property's value, of any other value it is \<open>undefined\<close>.\<close>

fun get_prop :: "json \<Rightarrow> string \<Rightarrow> exn + json option" where
  "get_prop JNull k = Inl TypeError"
| "get_prop (JObj kvs) k = Inr (map_of kvs k)"
| "get_prop v k = Inr None"

definition build_prompt :: "GenRequest \<Rightarrow> prompt" where
  "build_prompt req =
     (case req_currentArrangementMatrix req of
        Some currentArrangementMatrix \<Rightarrow>
          ModificationPrompt (req_numberedMatrix req) currentArrangementMatrix (req_students req)
            (req_conditions req) (req_layoutMatrix req)
      | None \<Rightarrow>
          GenerationPrompt (req_numberedMatrix req) (req_layoutMatrix req) (req_students req)
            (req_conditions req))"

text \<open>
  The body of the \<open>try\<close> block. \<open>generateContent\<close> is the call of the external service and
  \<open>JSON_parse\<close> the runtime's parser; both are parameters.
\<close>

definition try_block ::
  "(prompt \<Rightarrow> exn + GenResponse) \<Rightarrow> (string \<Rightarrow> exn + json) \<Rightarrow> prompt \<Rightarrow> exn + GenResult" where
  "try_block generateContent JSON_parse p =
     (case generateContent p of
        Inl e \<Rightarrow> Inl e
      | Inr response \<Rightarrow>
          (case response_text response of
             None \<Rightarrow> Inl TypeError
           | Some t \<Rightarrow>
               (case JSON_parse (trim t) of
                  Inl e \<Rightarrow> Inl e
                | Inr parsed \<Rightarrow>
                    (case get_prop parsed ''error'' of
                       Inl e \<Rightarrow> Inl e
                     | Inr parsed_error \<Rightarrow>
                         if truthy_opt parsed_error
                         then Inr \<lparr> seating = None, error = map_option Msg_FromAI parsed_error \<rparr>
                         else
                           (case get_prop parsed ''seating'' of
                              Inl e \<Rightarrow> Inl e
                            | Inr parsed_seating \<Rightarrow>
                                if \<not> truthy_opt parsed_seating \<or> \<not> isArray parsed_seating
                                then Inl (Error Msg_InvalidFormat)
                                else Inr \<lparr> seating = parsed_seating, error = None \<rparr>)))))"

definition generateSeatingArrangement ::
  "(prompt \<Rightarrow> exn + GenResponse) \<Rightarrow> (string \<Rightarrow> exn + json) \<Rightarrow> GenRequest \<Rightarrow> ServiceOutcome" where
  "generateSeatingArrangement generateContent JSON_parse req =
     (case try_block generateContent JSON_parse (build_prompt req) of
        Inr result \<Rightarrow> \<lparr> returned = Inr result, logged = [] \<rparr>
      | Inl e \<Rightarrow>
          \<lparr> returned = Inr \<lparr> seating = None, error = Some Msg_Communication \<rparr>,
            logged = [e] \<rparr>)"

text \<open>
  Whether a message is a string: the messages written in the source are; the value of
  the field \<open>error\<close> of the AI's answer is one when the parsed value is a string.
\<close>

fun is_string_message :: "message \<Rightarrow> bool" where
  "is_string_message (Msg_FromAI (JStr s)) = True"
| "is_string_message (Msg_FromAI v) = False"
| "is_string_message m = True"

section \<open>The generate button (handleGenerateClick)\<close>

text \<open>The state of the application that the handler reads and sets.\<close>

record AppState =
  app_layoutObjects :: "LayoutObject list"
  app_students :: string
  app_conditions :: string
  app_seatingChart :: "json option"
  app_finalArrangement :: "LayoutObject list option"
  app_isLoading :: bool
  app_error :: "message option"

text \<open>
  What a run of the handler leaves behind: the state, the calls of
  \<open>generateSeatingArrangement\<close> it made, in order, and the exception that ended it, if one
  did (the handler has no \<open>try\<close> of its own).
\<close>

record Handled =
  state :: AppState
  calls :: "GenRequest list"
  thrown :: "exn option"

subsection \<open>Available seats\<close>

definition count_char :: "char \<Rightarrow> string \<Rightarrow> nat" where
  "count_char c s = length (filter (\<lambda>a. a = c) s)"

text \<open>\<open>potentialSeats\<close> of a type code: the matches of \<open>/1/g\<close> when the code includes a "1", the
  matches of \<open>/0/g\<close> otherwise.\<close>

definition potentialSeats :: "string \<Rightarrow> nat" where
  "potentialSeats t =
     (if CHR ''1'' \<in> set t then count_char CHR ''1'' t else count_char CHR ''0'' t)"

text \<open>\<open>desk.userBlockedSeats?.length || 0\<close>\<close>

definition numUserBlocked :: "LayoutObject \<Rightarrow> nat" where
  "numUserBlocked desk = (case userBlockedSeats desk of None \<Rightarrow> 0 | Some blocked \<Rightarrow> length blocked)"

text \<open>The \<open>forEach\<close> that adds up \<open>availableSeats\<close>.\<close>

fun count_seats :: "LayoutObject list \<Rightarrow> int \<Rightarrow> int" where
  "count_seats [] availableSeats = availableSeats"
| "count_seats (desk # desks) availableSeats =
     (if desk_type desk \<noteq> ''--''
      then count_seats desks
             (availableSeats + (int (potentialSeats (desk_type desk)) - int (numUserBlocked desk)))
      else count_seats desks availableSeats)"

subsection \<open>The current arrangement as text (modification only)\<close>

text \<open>The two placeholders: "[prazdna]" for a desk without students and "prazdne" for a free
  seat, with their accented letters as the code units 0xE1 and 0xE9.\<close>

definition empty_desk_label :: string where
  "empty_desk_label = ''[pr'' @ [CHR 0xE1] @ ''zdn'' @ [CHR 0xE1] @ '']''"

definition empty_seat_label :: string where
  "empty_seat_label = ''pr'' @ [CHR 0xE1] @ ''zdn'' @ [CHR 0xE9]"

text \<open>\<open>Number\<close> on a string of decimal digits.\<close>

definition digit_value :: "char \<Rightarrow> nat" where
  "digit_value c = of_char c - 48"

definition read_nat :: "string \<Rightarrow> nat" where
  "read_nat s = foldl (\<lambda>n c. 10 * n + digit_value c) 0 s"

text \<open>
  The \<open>for ... in\<close> loop over the position map: the first key that holds the id, split at
  "-". Every key of the map was made by \<open>pos_key\<close>, so it has its two numbers.
\<close>

definition find_position :: "PositionMap \<Rightarrow> string \<Rightarrow> (nat \<times> nat) option" where
  "find_position pm deskId =
     (case find (\<lambda>entry. snd entry = deskId) pm of
        None \<Rightarrow> None
      | Some entry \<Rightarrow>
          (case split CHR ''-'' (fst entry) of
             r # c # further \<Rightarrow> Some (read_nat r, read_nat c)
           | _ \<Rightarrow> None))"

definition render_students :: "LayoutObject \<Rightarrow> string" where
  "render_students deskInArrangement =
     (case students deskInArrangement of
        None \<Rightarrow> empty_desk_label
      | Some studs \<Rightarrow>
          if length studs > 0
          then ''['' @
               join '', '' (map (\<lambda>s. case s of None \<Rightarrow> empty_seat_label
                                        | Some name \<Rightarrow> if name = [] then empty_seat_label else name) studs)
               @ '']''
          else empty_desk_label)"

text \<open>The position of a desk of the arrangement lies inside the grid, so the write is a
  list update.\<close>

fun fill_arrangement :: "PositionMap \<Rightarrow> LayoutObject list \<Rightarrow> string list list \<Rightarrow> string list list" where
  "fill_arrangement pm [] arrangementGrid = arrangementGrid"
| "fill_arrangement pm (deskInArrangement # desks) arrangementGrid =
     fill_arrangement pm desks
       (case find_position pm (desk_id deskInArrangement) of
          None \<Rightarrow> arrangementGrid
        | Some (r_idx, c_idx) \<Rightarrow>
            arrangementGrid
              [r_idx := (arrangementGrid ! r_idx) [c_idx := render_students deskInArrangement]])"

definition current_arrangement_matrix :: "Conversion \<Rightarrow> LayoutObject list \<Rightarrow> string" where
  "current_arrangement_matrix conv finalArrangement =
     (let arrangementGrid =
            fill_arrangement (positionMap conv) finalArrangement
              (map (map (\<lambda>cell. if cell = ''--'' then ''--'' else empty_desk_label)) (layout conv))
      in join [CHR 0x0A] (map (\<lambda>row. join '' '' (map (padEnd 25) row)) arrangementGrid))"

text \<open>The names of the arrangement: \<open>flatMap\<close>, the filter \<open>!!s && s.trim() !== ''\<close>, and the
  set.\<close>

definition arrangement_students :: "LayoutObject list \<Rightarrow> string list" where
  "arrangement_students finalArrangement =
     uniq (filter (\<lambda>s. s \<noteq> [] \<and> trim s \<noteq> [])
             (concat (map (\<lambda>desk. case students desk of
                                      None \<Rightarrow> []
                                    | Some studs \<Rightarrow> concat (map (\<lambda>s. case s of None \<Rightarrow> [] | Some n \<Rightarrow> [n]) studs))
                        finalArrangement)))"

subsection \<open>The conditions for the seats the user blocked\<close>

fun find_index :: "('a \<Rightarrow> bool) \<Rightarrow> 'a list \<Rightarrow> nat option" where
  "find_index P [] = None"
| "find_index P (a # as) =
     (if P a then Some 0 else (case find_index P as of None \<Rightarrow> None | Some i \<Rightarrow> Some (i + 1)))"

definition additionalConditions :: "LayoutObject list \<Rightarrow> condition list" where
  "additionalConditions objs =
     (let sortedForNumbering = js_sort ui_cmp objs
      in concat (map (\<lambda>desk.
           case userBlockedSeats desk of
             None \<Rightarrow> []
           | Some blocked \<Rightarrow>
               if length blocked > 0
               then (case find_index (\<lambda>d. desk_id d = desk_id desk) sortedForNumbering of
                       None \<Rightarrow> []
                     | Some deskIndex \<Rightarrow>
                         map (\<lambda>seatIndex. SeatBlocked (deskIndex + 1) (seatIndex + 1)) blocked)
               else []) objs))"

subsection \<open>Applying the answer\<close>

text \<open>\<open>typeof s === 'string' ? s : null\<close>\<close>

fun seat_name :: "json \<Rightarrow> string option" where
  "seat_name (JStr s) = Some s"
| "seat_name v = None"

text \<open>\<open>find\<close> returns the first object that satisfies the test; the assignment to its field
  changes it in place.\<close>

fun update_first :: "('a \<Rightarrow> bool) \<Rightarrow> ('a \<Rightarrow> 'a) \<Rightarrow> 'a list \<Rightarrow> 'a list" where
  "update_first P f [] = []"
| "update_first P f (a # as) = (if P a then f a # as else a # update_first P f as)"

definition apply_cell :: "PositionMap \<Rightarrow> nat \<Rightarrow> nat \<Rightarrow> json \<Rightarrow> LayoutObject list \<Rightarrow> LayoutObject list" where
  "apply_cell pm rowIndex colIndex deskStudents populated =
     (if truthy deskStudents then
        (case pm_get pm (pos_key rowIndex colIndex) of
           None \<Rightarrow> populated
         | Some objectId \<Rightarrow>
             if objectId = [] then populated
             else (case deskStudents of
                     JArr seats \<Rightarrow>
                       update_first (\<lambda>obj. desk_id obj = objectId)
                         (\<lambda>targetObject. targetObject \<lparr> students := Some (map seat_name seats) \<rparr>)
                         populated
                   | _ \<Rightarrow> populated))
      else populated)"

fun apply_cells :: "PositionMap \<Rightarrow> nat \<Rightarrow> nat \<Rightarrow> json list \<Rightarrow> LayoutObject list \<Rightarrow> LayoutObject list" where
  "apply_cells pm rowIndex colIndex [] populated = populated"
| "apply_cells pm rowIndex colIndex (deskStudents # cells) populated =
     apply_cells pm rowIndex (colIndex + 1) cells (apply_cell pm rowIndex colIndex deskStudents populated)"

text \<open>A row that is not an array has no \<open>forEach\<close>: the call throws a \<open>TypeError\<close>.\<close>

fun apply_rows :: "PositionMap \<Rightarrow> nat \<Rightarrow> json list \<Rightarrow> LayoutObject list \<Rightarrow> exn + LayoutObject list" where
  "apply_rows pm rowIndex [] populated = Inr populated"
| "apply_rows pm rowIndex (row # rows) populated =
     (case row of
        JArr cells \<Rightarrow> apply_rows pm (rowIndex + 1) rows (apply_cells pm rowIndex 0 cells populated)
      | _ \<Rightarrow> Inl TypeError)"

definition apply_seating :: "PositionMap \<Rightarrow> json \<Rightarrow> LayoutObject list \<Rightarrow> exn + LayoutObject list" where
  "apply_seating pm result_seating objs =
     (case result_seating of
        JArr rows \<Rightarrow> apply_rows pm 0 rows (map (\<lambda>obj. obj \<lparr> students := Some [] \<rparr>) objs)
      | _ \<Rightarrow> Inl TypeError)"

text \<open>\<open>if (result.error)\<close>: a message is truthy unless it is a falsy value of the AI's.\<close>

fun message_truthy :: "message option \<Rightarrow> bool" where
  "message_truthy None = False"
| "message_truthy (Some (Msg_FromAI v)) = truthy v"
| "message_truthy (Some m) = True"

subsection \<open>The handler\<close>

text \<open>The roster: the trimmed text split at line feeds, without the blank lines.\<close>

definition parse_roster :: "string \<Rightarrow> string list" where
  "parse_roster studentsText = filter (\<lambda>s. trim s \<noteq> []) (split (CHR 0x0A) (trim studentsText))"

text \<open>From the call of the service to the end of the handler.\<close>

definition call_and_apply ::
  "(prompt \<Rightarrow> exn + GenResponse) \<Rightarrow> (string \<Rightarrow> exn + json) \<Rightarrow> AppState \<Rightarrow> Conversion \<Rightarrow>
   string list \<Rightarrow> string option \<Rightarrow> Handled" where
  "call_and_apply generateContent JSON_parse st conv studentList currentArrangementMatrix =
     (let req = \<lparr> req_layoutMatrix = matrix conv,
                  req_students = studentList,
                  req_conditions = UserText (app_conditions st) # additionalConditions (app_layoutObjects st),
                  req_numberedMatrix = numberedMatrix conv,
                  req_currentArrangementMatrix = currentArrangementMatrix \<rparr>
      in case returned (generateSeatingArrangement generateContent JSON_parse req) of
           Inl e \<Rightarrow> \<lparr> state = st, calls = [req], thrown = Some e \<rparr>
         | Inr result \<Rightarrow>
             if message_truthy (error result)
             then \<lparr> state = st \<lparr> app_error := error result, app_isLoading := False \<rparr>,
                    calls = [req], thrown = None \<rparr>
             else
               (case seating result of
                  None \<Rightarrow> \<lparr> state = st \<lparr> app_isLoading := False \<rparr>, calls = [req], thrown = None \<rparr>
                | Some result_seating \<Rightarrow>
                    if truthy result_seating
                    then (case apply_seating (positionMap conv) result_seating (app_layoutObjects st) of
                            Inl e \<Rightarrow> \<lparr> state = st, calls = [req], thrown = Some e \<rparr>
                          | Inr populatedLayoutObjects \<Rightarrow>
                              \<lparr> state = st \<lparr> app_finalArrangement := Some populatedLayoutObjects,
                                             app_seatingChart := seating result,
                                             app_isLoading := False \<rparr>,
                                calls = [req], thrown = None \<rparr>)
                    else \<lparr> state = st \<lparr> app_isLoading := False \<rparr>, calls = [req], thrown = None \<rparr>))"

definition abort_with :: "AppState \<Rightarrow> message \<Rightarrow> Handled" where
  "abort_with st m =
     \<lparr> state = st \<lparr> app_error := Some m, app_isLoading := False \<rparr>, calls = [], thrown = None \<rparr>"

definition handleGenerateClick ::
  "(prompt \<Rightarrow> exn + GenResponse) \<Rightarrow> (string \<Rightarrow> exn + json) \<Rightarrow> AppState \<Rightarrow> Handled" where
  "handleGenerateClick generateContent JSON_parse st0 =
     (let st = st0 \<lparr> app_error := None, app_isLoading := True, app_seatingChart := None \<rparr>;
          conv = convertObjectsToLayoutMatrix (app_layoutObjects st0)
      in if matrix conv = [] \<or> length (layout conv) = 0
         then abort_with st Msg_EmptyLayout
         else
           (case app_finalArrangement st0 of
              Some finalArrangement \<Rightarrow>
                call_and_apply generateContent JSON_parse st conv
                  (arrangement_students finalArrangement)
                  (Some (current_arrangement_matrix conv finalArrangement))
            | None \<Rightarrow>
                (let st' = st \<lparr> app_finalArrangement := None \<rparr>;
                     studentList = parse_roster (app_students st0)
                 in if length studentList = 0
                    then abort_with st' Msg_EmptyRoster
                    else
                      (let availableSeats = count_seats (app_layoutObjects st0) 0
                       in if int (length studentList) > availableSeats
                          then abort_with st' (Msg_InsufficientSeats (length studentList) availableSeats)
                          else call_and_apply generateContent JSON_parse st' conv studentList None))))"

subsection \<open>The seating matrix seen from one desk\<close>

text \<open>
  \<^term>\<open>cell_at\<close> reads \<open>seating[r][c]\<close>.  The remaining functions follow one
  desk through the two nested \<open>forEach\<close> loops of \<open>handleGenerateClick\<close>: they are
  not part of the program, only a view of \<open>apply_rows\<close> used in the proofs.
\<close>

definition cell_at :: "json list \<Rightarrow> nat \<Rightarrow> nat \<Rightarrow> json option" where
  "cell_at rows r c =
     (if r < length rows
      then (case rows ! r of
              JArr cells \<Rightarrow> if c < length cells then Some (cells ! c) else None
            | _ \<Rightarrow> None)
      else None)"

definition cell_update :: "PositionMap \<Rightarrow> nat \<Rightarrow> nat \<Rightarrow> json \<Rightarrow> LayoutObject \<Rightarrow> LayoutObject" where
  "cell_update pm r c cell obj =
     (case cell of
        JArr seats \<Rightarrow>
          if pm_get pm (pos_key r c) = Some (desk_id obj) \<and> desk_id obj \<noteq> []
          then obj \<lparr> students := Some (map seat_name seats) \<rparr>
          else obj
      | _ \<Rightarrow> obj)"

fun obj_cells :: "PositionMap \<Rightarrow> nat \<Rightarrow> nat \<Rightarrow> json list \<Rightarrow> LayoutObject \<Rightarrow> LayoutObject" where
  "obj_cells pm r c [] obj = obj"
| "obj_cells pm r c (cell # cells) obj = obj_cells pm r (c + 1) cells (cell_update pm r c cell obj)"

fun obj_rows :: "PositionMap \<Rightarrow> nat \<Rightarrow> json list list \<Rightarrow> LayoutObject \<Rightarrow> LayoutObject" where
  "obj_rows pm r [] obj = obj"
| "obj_rows pm r (cells # rows) obj = obj_rows pm (r + 1) rows (obj_cells pm r 0 cells obj)"

definition owns :: "PositionMap \<Rightarrow> LayoutObject \<Rightarrow> nat \<Rightarrow> nat \<Rightarrow> bool" where
  "owns pm obj r c \<longleftrightarrow> pm_get pm (pos_key r c) = Some (desk_id obj)"

definition cells_of :: "json \<Rightarrow> json list" where
  "cells_of row = (case row of JArr cells \<Rightarrow> cells | _ \<Rightarrow> [])"

section \<open>Concrete inputs\<close>

text \<open>A desk as the editor creates it: not rotated, no seat blocked, no students.\<close>

definition desk_at :: "string \<Rightarrow> string \<Rightarrow> real \<Rightarrow> real \<Rightarrow> real \<Rightarrow> real \<Rightarrow> LayoutObject" where
  "desk_at i t px py w h =
     \<lparr> desk_id = i, desk_type = t, desk_x = px, desk_y = py, desk_width = w, desk_height = h,
       rotation = Some 0, students = None, userBlockedSeats = Some [] \<rparr>"

text \<open>A double desk dragged from the palette and dropped with the pointer at (96, 48): its
  target cell is (2, 1), inside the double desk that stands at (0, 0).\<close>

definition drag_new_double :: DragData where
  "drag_new_double =
     \<lparr> drag_type = ''11'', drag_width = 8, drag_height = 4, isNew = True, drag_id = None,
       offsetX = Some 10, offsetY = Some 10 \<rparr>"

definition editor_one_double :: EditorState where
  "editor_one_double =
     \<lparr> layoutObjects = [desk_at ''desk-1'' ''11'' 0 0 8 4],
       dragData = Some drag_new_double, console = [] \<rparr>"

definition drop_at_96_48 :: DropEvent where
  "drop_at_96_48 = \<lparr> clientX = 96, clientY = 48, editorRect = Some (0, 0) \<rparr>"

text \<open>A service that answers every prompt with the text \<open>t\<close>, one that fails, and a parser
  given by a table of the texts it accepts.\<close>

definition ai_answers :: "string \<Rightarrow> prompt \<Rightarrow> exn + GenResponse" where
  "ai_answers t p = Inr \<lparr> response_text = Some t \<rparr>"

definition ai_unreachable :: "prompt \<Rightarrow> exn + GenResponse" where
  "ai_unreachable p = Inl TransportFailure"

definition parse_table :: "(string \<times> json) list \<Rightarrow> string \<Rightarrow> exn + json" where
  "parse_table table s = (case map_of table s of Some j \<Rightarrow> Inr j | None \<Rightarrow> Inl SyntaxError)"

definition answer_without_seating :: "(string \<times> json) list" where
  "answer_without_seating = [(''{\"error\": null}'', JObj [(''error'', JNull)])]"

text \<open>An answer whose field \<open>error\<close> is the number 5.\<close>

definition answer_error_five :: "(string \<times> json) list" where
  "answer_error_five = [(''{\"error\": 5}'', JObj [(''error'', JNum 5)])]"

definition alice_bob_text :: string where
  "alice_bob_text = ''{\"seating\": [[[\"Alice\",\"Bob\"]]], \"error\": null}''"

definition answer_alice_bob :: "(string \<times> json) list" where
  "answer_alice_bob =
     [(alice_bob_text,
       JObj [(''seating'', JArr [JArr [JArr [JStr ''Alice'', JStr ''Bob'']]]), (''error'', JNull)])]"

definition request_one_double :: GenRequest where
  "request_one_double =
     \<lparr> req_layoutMatrix = ''11'', req_students = [''Alice'', ''Bob''],
       req_conditions = [UserText []], req_numberedMatrix = ''L1   '',
       req_currentArrangementMatrix = None \<rparr>"

text \<open>A single desk at (4, 0) behind a triple desk at (0, 6): both have their centre at 6.\<close>

definition single_behind_triple :: "LayoutObject list" where
  "single_behind_triple = [desk_at ''a'' ''1'' 4 0 4 4, desk_at ''b'' ''111'' 0 6 12 4]"

text \<open>
  Three single desks on a staircase, listed from the back: \<open>r\<close> is within the tolerance of
  both \<open>p\<close> and \<open>q\<close>, and \<open>q\<close> is a whole desk height in front of \<open>p\<close>.
\<close>

definition staircase_prq :: "LayoutObject list" where
  "staircase_prq =
     [desk_at ''p'' ''1'' 0 0 4 4, desk_at ''r'' ''1'' 5 2 4 4, desk_at ''q'' ''1'' 10 4 4 4]"

text \<open>The application with one single desk and a roster of two names, and with one double
  desk and the same roster; nothing generated yet.\<close>

definition app_one_single :: AppState where
  "app_one_single =
     \<lparr> app_layoutObjects = [desk_at ''desk-initial-0'' ''1'' 0 0 4 4],
       app_students = ''Alice'' @ [CHR 0x0A] @ ''Bob'',
       app_conditions = [], app_seatingChart = None, app_finalArrangement = None,
       app_isLoading = False, app_error = None \<rparr>"

definition app_one_double :: AppState where
  "app_one_double =
     \<lparr> app_layoutObjects = [desk_at ''desk-initial-0'' ''11'' 0 0 8 4],
       app_students = ''Alice'' @ [CHR 0x0A] @ ''Bob'',
       app_conditions = [], app_seatingChart = None, app_finalArrangement = None,
       app_isLoading = False, app_error = None \<rparr>"

section \<open>The library functions: proofs\<close>

lemma digit_value_digit_char: "d < 10 \<Longrightarrow> digit_value (digit_char d) = d"
proof -
  assume "d < 10"
  then have "d \<in> {0,1,2,3,4,5,6,7,8,9}" by auto
  then show ?thesis
    by (auto simp: digit_value_def digit_char_def)
qed

lemma read_nat_snoc: "read_nat (s @ [c]) = 10 * read_nat s + digit_value c"
  by (simp add: read_nat_def)

lemma read_nat_show_nat: "read_nat (show_nat n) = n"
proof (induction n rule: show_nat.induct)
  case (1 n)
  show ?case
  proof (cases "n < 10")
    case True
    then show ?thesis
      by (simp add: show_nat.simps [of n] read_nat_def digit_value_digit_char)
  next
    case False
    then have "read_nat (show_nat n) = 10 * read_nat (show_nat (n div 10)) + digit_value (digit_char (n mod 10))"
      by (simp add: show_nat.simps [of n] read_nat_snoc)
    also have "\<dots> = 10 * (n div 10) + n mod 10"
      using 1 False by (simp add: digit_value_digit_char)
    finally show ?thesis by simp
  qed
qed

lemma show_nat_inj: "show_nat m = show_nat n \<Longrightarrow> m = n"
  by (metis read_nat_show_nat)

lemma digit_char_not_dash: "d < 10 \<Longrightarrow> digit_char d \<noteq> CHR ''-''"
proof -
  assume "d < 10"
  then have "d \<in> {0,1,2,3,4,5,6,7,8,9}" by auto
  then show ?thesis
    by (auto simp: digit_char_def)
qed

lemma show_nat_no_dash: "CHR ''-'' \<notin> set (show_nat n)"
proof (induction n rule: show_nat.induct)
  case (1 n)
  show ?case
  proof (cases "n < 10")
    case True
    then show ?thesis
      using digit_char_not_dash [of n] by (auto simp: show_nat.simps [of n])
  next
    case False
    with 1 show ?thesis
      using digit_char_not_dash [of "n mod 10"] by (auto simp: show_nat.simps [of n])
  qed
qed

lemma show_nat_not_Nil: "show_nat n \<noteq> []"
  by (simp add: show_nat.simps [of n])

lemma split_no_sep: "sep \<notin> set a \<Longrightarrow> split sep a = [a]"
  by (induction a) auto

lemma split_not_Nil: "split sep s \<noteq> []"
  by (induction s) (auto split: list.splits)

lemma split_append_sep: "sep \<notin> set a \<Longrightarrow> split sep (a @ sep # b) = a # split sep b"
  by (induction a) (auto split: list.splits)

lemma split_pos_key: "split CHR ''-'' (pos_key r c) = [show_nat r, show_nat c]"
  by (simp add: pos_key_def split_append_sep show_nat_no_dash split_no_sep)

lemma pos_key_inj: "pos_key r c = pos_key r' c' \<longleftrightarrow> r = r' \<and> c = c'"
proof
  assume "pos_key r c = pos_key r' c'"
  then have "split CHR ''-'' (pos_key r c) = split CHR ''-'' (pos_key r' c')" by simp
  then show "r = r' \<and> c = c'"
    by (auto simp: split_pos_key dest: show_nat_inj)
qed simp

lemma split_join:
  assumes "\<forall>p \<in> set ps. sep \<notin> set p" and "ps \<noteq> []"
  shows "split sep (join [sep] ps) = ps"
  using assms
proof (induction ps)
  case Nil
  then show ?case by simp
next
  case (Cons p ps)
  show ?case
  proof (cases ps)
    case Nil
    with Cons.prems show ?thesis
      by (simp add: split_no_sep)
  next
    case (Cons q qs)
    with Cons.IH Cons.prems have "split sep (join [sep] ps) = ps"
      by simp
    with Cons Cons.prems show ?thesis
      by (simp add: split_append_sep)
  qed
qed

lemma mset_js_insort: "mset (js_insort cmp a bs) = add_mset a (mset bs)"
  by (induction bs) auto

lemma mset_js_sort: "mset (js_sort cmp xs) = mset xs"
  by (induction xs) (auto simp: js_sort_def mset_js_insort)

lemma set_js_sort: "set (js_sort cmp xs) = set xs"
  by (metis mset_js_sort set_mset_mset)

lemma length_js_sort: "length (js_sort cmp xs) = length xs"
  by (metis mset_js_sort size_mset)

lemma js_insort_key: "js_insort (\<lambda>a b. f a - f b) = insort_key f"
proof (intro ext)
  fix a bs
  show "js_insort (\<lambda>a b. f a - f b) a bs = insort_key f a bs"
    by (induction bs) auto
qed

lemma js_sort_key: "js_sort (\<lambda>a b. f a - f b) xs = sort_key f xs"
  by (simp add: js_sort_def js_insort_key sort_key_def)

lemma uniq_aux:
  "distinct seen \<Longrightarrow>
   distinct (fold (\<lambda>v seen. if v \<in> set seen then seen else seen @ [v]) xs seen) \<and>
   set (fold (\<lambda>v seen. if v \<in> set seen then seen else seen @ [v]) xs seen) = set seen \<union> set xs"
  by (induction xs arbitrary: seen) auto

lemma distinct_uniq: "distinct (uniq xs)"
  using uniq_aux [of "[]" xs] by (simp add: uniq_def)

lemma set_uniq: "set (uniq xs) = set xs"
  using uniq_aux [of "[]" xs] by (simp add: uniq_def)

lemma trim_id:
  assumes "s \<noteq> []" and "\<not> is_space (hd s)" and "\<not> is_space (last s)"
  shows "trim s = s"
proof -
  have "dropWhile is_space s = s"
    using assms(1,2) by (cases s) auto
  moreover have "dropWhile is_space (rev s) = rev s"
    using assms(1,3) by (cases "rev s") (auto simp: last_rev [symmetric] hd_rev)
  ultimately show ?thesis
    by (simp add: trim_def)
qed

section \<open>Reading a serialised matrix back\<close>

lemma digit_char_plain:
  assumes "d < 10"
  shows "digit_char d \<noteq> CHR '',''" and "digit_char d \<noteq> CHR 0x0A" and "\<not> is_space (digit_char d)"
proof -
  from assms have "d \<in> {0,1,2,3,4,5,6,7,8,9}" by auto
  then show "digit_char d \<noteq> CHR '',''" and "digit_char d \<noteq> CHR 0x0A" and "\<not> is_space (digit_char d)"
    by (auto simp: digit_char_def is_space_def)
qed

lemma show_nat_plain_chars:
  "\<forall>c \<in> set (show_nat n). c \<noteq> CHR '','' \<and> c \<noteq> CHR 0x0A \<and> \<not> is_space c"
proof (induction n rule: show_nat.induct)
  case (1 n)
  show ?case
  proof (cases "n < 10")
    case True
    then show ?thesis
      using digit_char_plain [of n] by (simp add: show_nat.simps [of n])
  next
    case False
    with 1 show ?thesis
      using digit_char_plain [of "n mod 10"] by (simp add: show_nat.simps [of n])
  qed
qed

lemma plain_label: "plain_cell (''L'' @ show_nat n)"
  using show_nat_plain_chars [of n] by (simp add: plain_cell_def is_space_def)

lemma plain_filler: "plain_cell ''--''"
  by (simp add: plain_cell_def is_space_def)

lemma plain_typeCode: "valid_typeCode t \<Longrightarrow> plain_cell t"
  by (auto simp: valid_typeCode_def plain_cell_def is_space_def)

lemma trim_plain: "plain_cell s \<Longrightarrow> trim s = s"
proof -
  assume p: "plain_cell s"
  then have "s \<noteq> []" "\<not> is_space (hd s)" "\<not> is_space (last s)"
    by (auto simp: plain_cell_def)
  then show ?thesis by (rule trim_id)
qed

lemma dropWhile_replicate_space:
  "dropWhile is_space (replicate k CHR '' '' @ s) = dropWhile is_space s"
  by (induction k) (auto simp: is_space_def)

lemma trim_padEnd: "plain_cell s \<Longrightarrow> trim (padEnd n s) = s"
proof -
  assume p: "plain_cell s"
  then have s: "s \<noteq> []" "\<not> is_space (hd s)" "\<not> is_space (last s)"
    by (auto simp: plain_cell_def)
  have 1: "dropWhile is_space (s @ replicate (n - length s) CHR '' '') = s @ replicate (n - length s) CHR '' ''"
    using s by (cases s) auto
  have 2: "dropWhile is_space (rev s) = rev s"
    using s by (cases "rev s") (auto simp: last_rev [symmetric] hd_rev)
  show ?thesis
    by (simp add: trim_def padEnd_def 1 dropWhile_replicate_space 2)
qed

lemma padEnd_no_comma: "plain_cell s \<Longrightarrow> CHR '','' \<notin> set (padEnd n s)"
  by (auto simp: plain_cell_def padEnd_def)

lemma padEnd_no_newline: "plain_cell s \<Longrightarrow> CHR 0x0A \<notin> set (padEnd n s)"
  by (auto simp: plain_cell_def padEnd_def)

lemma set_join: "set (join sep ps) \<subseteq> set sep \<union> \<Union> (set ` set ps)"
  by (induction sep ps rule: join.induct) auto

lemma read_matrix_join:
  assumes cells: "\<forall>row \<in> set grid. row \<noteq> [] \<and> (\<forall>cell \<in> set row. plain_cell cell)"
    and ne: "grid \<noteq> []"
  shows "read_matrix (join [CHR 0x0A] (map (join '','') grid)) = grid"
    and "read_matrix (join [CHR 0x0A] (map (\<lambda>row. join '','' (map (padEnd n) row)) grid)) = grid"
proof -
  have no_nl: "\<forall>p \<in> set (map (join '','') grid). CHR 0x0A \<notin> set p"
  proof
    fix p assume "p \<in> set (map (join '','') grid)"
    then obtain row where row: "row \<in> set grid" "p = join '','' row" by auto
    with cells have "\<forall>cell \<in> set row. CHR 0x0A \<notin> set cell" by (auto simp: plain_cell_def)
    with set_join [of "'',''" row] row(2) show "CHR 0x0A \<notin> set p" by auto
  qed
  have lines: "split (CHR 0x0A) (join [CHR 0x0A] (map (join '','') grid)) = map (join '','') grid"
    using split_join [OF no_nl] ne by simp
  have row_ok: "map trim (split CHR '','' (join '','' row)) = row" if "row \<in> set grid" for row
  proof -
    from that cells have c: "\<forall>cell \<in> set row. plain_cell cell" and rne: "row \<noteq> []" by auto
    then have "\<forall>p \<in> set row. CHR '','' \<notin> set p" by (auto simp: plain_cell_def)
    from split_join [OF this rne] have "split CHR '','' (join '','' row) = row" by simp
    moreover have "map trim row = row"
      using c by (simp add: map_idI trim_plain)
    ultimately show ?thesis by simp
  qed
  show "read_matrix (join [CHR 0x0A] (map (join '','') grid)) = grid"
    unfolding read_matrix_def lines using row_ok by (simp add: map_idI)
  have no_nl': "\<forall>p \<in> set (map (\<lambda>row. join '','' (map (padEnd n) row)) grid). CHR 0x0A \<notin> set p"
  proof
    fix p assume "p \<in> set (map (\<lambda>row. join '','' (map (padEnd n) row)) grid)"
    then obtain row where row: "row \<in> set grid" "p = join '','' (map (padEnd n) row)" by auto
    with cells have "\<forall>cell \<in> set (map (padEnd n) row). CHR 0x0A \<notin> set cell"
      by (auto simp: padEnd_no_newline)
    with set_join [of "'',''" "map (padEnd n) row"] row(2) show "CHR 0x0A \<notin> set p" by auto
  qed
  have lines': "split (CHR 0x0A) (join [CHR 0x0A] (map (\<lambda>row. join '','' (map (padEnd n) row)) grid)) =
      map (\<lambda>row. join '','' (map (padEnd n) row)) grid"
    using split_join [OF no_nl'] ne by simp
  have row_ok': "map trim (split CHR '','' (join '','' (map (padEnd n) row))) = row" if "row \<in> set grid" for row
  proof -
    from that cells have c: "\<forall>cell \<in> set row. plain_cell cell" and rne: "row \<noteq> []" by auto
    then have "\<forall>p \<in> set (map (padEnd n) row). CHR '','' \<notin> set p" by (auto simp: padEnd_no_comma)
    from split_join [OF this] rne have "split CHR '','' (join '','' (map (padEnd n) row)) = map (padEnd n) row" by simp
    moreover have "map (trim \<circ> padEnd n) row = row"
      using c by (simp add: map_idI trim_padEnd)
    ultimately show ?thesis by simp
  qed
  show "read_matrix (join [CHR 0x0A] (map (\<lambda>row. join '','' (map (padEnd n) row)) grid)) = grid"
    unfolding read_matrix_def lines' using row_ok' by (simp add: map_idI)
qed

section \<open>Collision policy: proofs\<close>

lemma checkCollision_iff:
  "checkCollision newDesk ds \<longleftrightarrow>
     (\<exists>d \<in> set ds. desk_id d \<noteq> desk_id newDesk \<and> rects_collide newDesk d)"
  by (induction ds) auto

lemma rects_overlap_imp_collide:
  assumes "rects_overlap a b"
  shows "rects_collide a b"
proof -
  from assms obtain p where "in_rect a p" and "in_rect b p"
    unfolding rects_overlap_def by blast
  then show ?thesis
    unfolding in_rect_def rects_collide_def by linarith
qed

lemma rects_collide_imp_overlap:
  assumes "rects_collide a b"
    and "0 < desk_width a" "0 < desk_height a" "0 < desk_width b" "0 < desk_height b"
  shows "rects_overlap a b"
proof -
  let ?p = "(max (desk_x a) (desk_x b), max (desk_y a) (desk_y b))"
  from assms have "in_rect a ?p" "in_rect b ?p"
    unfolding in_rect_def rects_collide_def by auto
  then show ?thesis
    unfolding rects_overlap_def by blast
qed

lemma handleDrop_collision:
  assumes "dragData st = Some dd" and "editorRect e = Some rect"
    and "d \<in> set (layoutObjects st)"
    and "desk_id d \<noteq> desk_id (dropped_desk now dd e rect)"
    and "rects_collide (dropped_desk now dd e rect) d"
  shows "handleDrop now e st = st \<lparr> console := console st @ [''Collision detected!''] \<rparr>"
proof -
  let ?nd = "dropped_desk now dd e rect"
  have "checkCollision ?nd (filter (\<lambda>d. desk_id d \<noteq> desk_id ?nd) (layoutObjects st))"
    unfolding checkCollision_iff using assms(3-5) by auto
  then show ?thesis
    using assms(1,2) by (simp add: handleDrop_def Let_def)
qed

text \<open>
  C9. A drop whose target rectangle overlaps the rectangle of another desk (another id; the
  rectangles as products of half-open intervals) is a silent no-op: the handler returns
  the state it was given, desk set and drag payload untouched, with one console warning
  as its only trace. A rectangle that only shares an edge with the target does not collide
  with it.
\<close>

theorem C9_collision_is_silent_noop:
  assumes "dragData st = Some dd" and "editorRect e = Some rect"
  shows "((\<exists>d \<in> set (layoutObjects st).
            desk_id d \<noteq> desk_id (dropped_desk now dd e rect) \<and>
            rects_overlap (dropped_desk now dd e rect) d) \<longrightarrow>
          handleDrop now e st = st \<lparr> console := console st @ [''Collision detected!''] \<rparr> \<and>
          layoutObjects (handleDrop now e st) = layoutObjects st \<and>
          dragData (handleDrop now e st) = dragData st) \<and>
         (\<forall>d. desk_x (dropped_desk now dd e rect) = desk_x d + desk_width d \<or>
              desk_x d = desk_x (dropped_desk now dd e rect) + desk_width (dropped_desk now dd e rect) \<or>
              desk_y (dropped_desk now dd e rect) = desk_y d + desk_height d \<or>
              desk_y d = desk_y (dropped_desk now dd e rect) + desk_height (dropped_desk now dd e rect)
              \<longrightarrow> \<not> rects_collide (dropped_desk now dd e rect) d \<and>
                  \<not> rects_overlap (dropped_desk now dd e rect) d)"
proof (intro conjI impI allI)
  assume "\<exists>d \<in> set (layoutObjects st).
            desk_id d \<noteq> desk_id (dropped_desk now dd e rect) \<and>
            rects_overlap (dropped_desk now dd e rect) d"
  then obtain d where d: "d \<in> set (layoutObjects st)"
      "desk_id d \<noteq> desk_id (dropped_desk now dd e rect)"
      "rects_collide (dropped_desk now dd e rect) d"
    using rects_overlap_imp_collide by blast
  have eq: "handleDrop now e st = st \<lparr> console := console st @ [''Collision detected!''] \<rparr>"
    using handleDrop_collision [OF assms d] .
  show "handleDrop now e st = st \<lparr> console := console st @ [''Collision detected!''] \<rparr>"
    by (rule eq)
  show "layoutObjects (handleDrop now e st) = layoutObjects st"
    by (simp add: eq)
  show "dragData (handleDrop now e st) = dragData st"
    by (simp add: eq)
next
  fix d :: LayoutObject
  assume edge: "desk_x (dropped_desk now dd e rect) = desk_x d + desk_width d \<or>
              desk_x d = desk_x (dropped_desk now dd e rect) + desk_width (dropped_desk now dd e rect) \<or>
              desk_y (dropped_desk now dd e rect) = desk_y d + desk_height d \<or>
              desk_y d = desk_y (dropped_desk now dd e rect) + desk_height (dropped_desk now dd e rect)"
  then show nc: "\<not> rects_collide (dropped_desk now dd e rect) d"
    unfolding rects_collide_def by auto
  then show "\<not> rects_overlap (dropped_desk now dd e rect) d"
    using rects_overlap_imp_collide by blast
qed

lemma dropped_desk_example:
  "dropped_desk 5 drag_new_double drop_at_96_48 (0, 0) = desk_at ''desk-5'' ''11'' 2 1 8 4"
  by (simp add: dropped_desk_def drag_new_double_def drop_at_96_48_def desk_at_def GRID_SIZE_def
      Math_round_def or_string_def show_nat.simps [of 5] digit_char_def)

theorem C9_collision_is_silent_noop_witness:
  "handleDrop 5 drop_at_96_48 editor_one_double =
     editor_one_double \<lparr> console := console editor_one_double @ [''Collision detected!''] \<rparr> \<and>
   layoutObjects (handleDrop 5 drop_at_96_48 editor_one_double) = layoutObjects editor_one_double \<and>
   dragData (handleDrop 5 drop_at_96_48 editor_one_double) = dragData editor_one_double \<and>
   \<not> rects_collide (dropped_desk 5 drag_new_double drop_at_96_48 (0, 0))
       (desk_at ''desk-2'' ''11'' 10 1 8 4) \<and>
   \<not> rects_overlap (dropped_desk 5 drag_new_double drop_at_96_48 (0, 0))
       (desk_at ''desk-2'' ''11'' 10 1 8 4)"
proof -
  have dd: "dragData editor_one_double = Some drag_new_double"
    by (simp add: editor_one_double_def)
  have rect: "editorRect drop_at_96_48 = Some (0, 0)"
    by (simp add: drop_at_96_48_def)
  have "in_rect (desk_at ''desk-5'' ''11'' 2 1 8 4) (2, 1)"
    and "in_rect (desk_at ''desk-1'' ''11'' 0 0 8 4) (2, 1)"
    by (simp_all add: in_rect_def desk_at_def)
  then have "rects_overlap (desk_at ''desk-5'' ''11'' 2 1 8 4) (desk_at ''desk-1'' ''11'' 0 0 8 4)"
    unfolding rects_overlap_def by blast
  then have hit: "\<exists>d \<in> set (layoutObjects editor_one_double).
      desk_id d \<noteq> desk_id (dropped_desk 5 drag_new_double drop_at_96_48 (0, 0)) \<and>
      rects_overlap (dropped_desk 5 drag_new_double drop_at_96_48 (0, 0)) d"
    by (simp add: dropped_desk_example editor_one_double_def desk_at_def)
  have edge: "desk_x (desk_at ''desk-2'' ''11'' 10 1 8 4) =
      desk_x (dropped_desk 5 drag_new_double drop_at_96_48 (0, 0)) +
      desk_width (dropped_desk 5 drag_new_double drop_at_96_48 (0, 0))"
    by (simp add: dropped_desk_example desk_at_def)
  from C9_collision_is_silent_noop [OF dd rect, of 5] hit edge show ?thesis
    by blast
qed

section \<open>The conversion: placement of the desks\<close>

lemma best_col_loop_Some:
  assumes "best_col_loop x i cc (b, m) = (b', m')"
    and "m = None \<longleftrightarrow> b = None"
    and "\<forall>j. b = Some j \<longrightarrow> j < i"
    and "cc \<noteq> [] \<or> b \<noteq> None"
  shows "\<exists>j. b' = Some j \<and> j < i + length cc"
  using assms
proof (induction cc arbitrary: i b m)
  case Nil
  then show ?case by auto
next
  case (Cons c cc)
  show ?case
  proof (cases "case m of None \<Rightarrow> True | Some v \<Rightarrow> \<bar>x - c\<bar> < v")
    case True
    with Cons.prems(1) have "best_col_loop x (i + 1) cc (Some i, Some \<bar>x - c\<bar>) = (b', m')"
      by (simp add: Let_def)
    from Cons.IH [OF this] show ?thesis by auto
  next
    case False
    with Cons.prems(1) have step: "best_col_loop x (i + 1) cc (b, m) = (b', m')"
      by (simp add: Let_def)
    from False Cons.prems(2) have "b \<noteq> None" by (auto split: option.splits)
    with Cons.IH [OF step Cons.prems(2)] Cons.prems(3) show ?thesis
      by (auto simp: less_Suc_eq)
  qed
qed

lemma best_col_Some:
  assumes "cc \<noteq> []"
  shows "\<exists>b. best_col cc x = Some b \<and> b < length cc"
proof -
  obtain b' m' where r: "best_col_loop x 0 cc (None, None) = (b', m')"
    by (cases "best_col_loop x 0 cc (None, None)")
  from best_col_loop_Some [OF r] assms show ?thesis
    by (auto simp: best_col_def r)
qed

lemma pm_set_fresh:
  assumes "k \<notin> fst ` set pm"
  shows "pm_set pm k v = pm @ [(k, v)]"
  using assms by (induction pm) (auto simp: pm_set_def)

lemma row_entries_snoc:
  "length cols = length ds \<Longrightarrow>
   row_entries r (cols @ [c]) (ds @ [d]) = row_entries r cols ds @ [(pos_key r c, desk_id d)]"
  by (simp add: row_entries_def)

lemma fst_row_entries:
  "length cols = length ds \<Longrightarrow> fst ` set (row_entries r cols ds) = pos_key r ` set cols"
  by (force simp: row_entries_def set_zip image_iff in_set_conv_nth)

lemma row_ok_update:
  assumes ok: "row_ok numCols newRow cols ds"
    and c: "c < length newRow" and free: "newRow ! c = ''--''"
    and t: "\<forall>d \<in> set ds. desk_type d \<noteq> ''--''"
  shows "row_ok numCols (newRow[c := desk_type d]) (cols @ [c]) (ds @ [d])" and "c \<notin> set cols"
proof -
  show notin: "c \<notin> set cols"
  proof
    assume "c \<in> set cols"
    then obtain j where j: "j < length cols" "cols ! j = c"
      by (auto simp: in_set_conv_nth)
    with ok have "newRow ! c = desk_type (ds ! j)" "ds ! j \<in> set ds"
      by (auto simp: row_ok_def)
    with free t show False by auto
  qed
  have len: "length cols = length ds" using ok by (simp add: row_ok_def)
  have cells: "\<And>j. j < length ds \<Longrightarrow> cols ! j \<noteq> c"
    using notin len by (metis nth_mem)
  show "row_ok numCols (newRow[c := desk_type d]) (cols @ [c]) (ds @ [d])"
    unfolding row_ok_def
  proof (intro conjI)
    show "\<forall>j<length (ds @ [d]). newRow[c := desk_type d] ! ((cols @ [c]) ! j) = desk_type ((ds @ [d]) ! j)"
    proof (intro allI impI)
      fix j assume "j < length (ds @ [d])"
      then consider "j < length ds" | "j = length ds" by fastforce
      then show "newRow[c := desk_type d] ! ((cols @ [c]) ! j) = desk_type ((ds @ [d]) ! j)"
      proof cases
        case 1
        with ok cells [OF 1] len show ?thesis
          by (simp add: row_ok_def nth_append)
      next
        case 2
        with len c show ?thesis by (simp add: nth_append)
      qed
    qed
  qed (use ok notin c in \<open>auto simp: row_ok_def\<close>)
qed

lemma row_ok_append:
  assumes ok: "row_ok numCols newRow cols ds"
  shows "row_ok numCols (newRow @ [desk_type d]) (cols @ [length newRow]) (ds @ [d])"
    and "length newRow \<notin> set cols"
proof -
  show notin: "length newRow \<notin> set cols"
    using ok by (auto simp: row_ok_def)
  have len: "length cols = length ds" using ok by (simp add: row_ok_def)
  show "row_ok numCols (newRow @ [desk_type d]) (cols @ [length newRow]) (ds @ [d])"
    unfolding row_ok_def
  proof (intro conjI)
    show "\<forall>j<length (ds @ [d]). (newRow @ [desk_type d]) ! ((cols @ [length newRow]) ! j) = desk_type ((ds @ [d]) ! j)"
    proof (intro allI impI)
      fix j assume "j < length (ds @ [d])"
      then consider "j < length ds" | "j = length ds" by fastforce
      then show "(newRow @ [desk_type d]) ! ((cols @ [length newRow]) ! j) = desk_type ((ds @ [d]) ! j)"
      proof cases
        case 1
        with ok len have "cols ! j < length newRow" "newRow ! (cols ! j) = desk_type (ds ! j)"
          by (auto simp: row_ok_def)
        with 1 len show ?thesis by (simp add: nth_append)
      next
        case 2
        with len show ?thesis by (simp add: nth_append)
      qed
    qed
    show "\<forall>c<length (newRow @ [desk_type d]). c \<notin> set (cols @ [length newRow]) \<longrightarrow> (newRow @ [desk_type d]) ! c = ''--''"
      using ok by (auto simp: row_ok_def nth_append less_Suc_eq)
    show "\<forall>c\<in>set (cols @ [length newRow]). c < length (newRow @ [desk_type d])"
      using ok by (auto simp: row_ok_def less_Suc_eq)
  qed (use ok notin in \<open>auto simp: row_ok_def\<close>)
qed

lemma find_SomeD': "find P xs = Some a \<Longrightarrow> P a \<and> a \<in> set xs"
  by (induction xs) (auto split: if_splits)

lemma key_fresh:
  assumes "\<forall>k \<in> fst ` set pm0. \<forall>c. k \<noteq> pos_key r c"
    and "length cols = length ds" and "c \<notin> set cols"
  shows "pos_key r c \<notin> fst ` set (pm0 @ row_entries r cols ds)"
proof -
  have "pos_key r c \<notin> pos_key r ` set cols"
    using assms(3) by (auto simp: pos_key_inj)
  moreover have "pos_key r c \<notin> fst ` set pm0"
    using assms(1) by blast
  ultimately show ?thesis
    using assms(2) by (simp add: fst_row_entries image_Un)
qed

lemma place_desk_step:
  assumes ok: "row_ok numCols newRow cols ds"
    and t: "\<forall>d \<in> set ds. desk_type d \<noteq> ''--''"
    and cc: "cc \<noteq> []" "length cc \<le> numCols"
    and fresh: "\<forall>k \<in> fst ` set pm0. \<forall>c. k \<noteq> pos_key r c"
  shows "\<exists>c newRow'.
           place_desk r numCols cc d (newRow, pm0 @ row_entries r cols ds) =
             (newRow', pm0 @ row_entries r (cols @ [c]) (ds @ [d])) \<and>
           row_ok numCols newRow' (cols @ [c]) (ds @ [d])"
proof -
  have len: "length cols = length ds" and wide: "numCols \<le> length newRow"
    using ok by (auto simp: row_ok_def)
  obtain b where b: "best_col cc (desk_x d + desk_width d / 2) = Some b" "b < length cc"
    using best_col_Some [OF cc(1)] by blast
  then have b_in: "b < length newRow" using cc(2) wide by simp
  show ?thesis
  proof (cases "cell_free newRow b")
    case True
    then have free: "newRow ! b = ''--''" using b_in by (simp add: cell_free_def)
    note upd = row_ok_update(1) [OF ok b_in free t, where d = d] row_ok_update(2) [OF ok b_in free t]
    have "pm_set (pm0 @ row_entries r cols ds) (pos_key r b) (desk_id d) =
            pm0 @ row_entries r (cols @ [b]) (ds @ [d])"
      using key_fresh [OF fresh len upd(2)] by (simp add: pm_set_fresh row_entries_snoc [OF len])
    with True b upd(1) show ?thesis
      by (auto simp: place_desk_def)
  next
    case False
    show ?thesis
    proof (cases "find (cell_free newRow) [0..<numCols]")
      case None
      note app = row_ok_append(1) [OF ok, where d = d] row_ok_append(2) [OF ok]
      have "pm_set (pm0 @ row_entries r cols ds) (pos_key r (length newRow)) (desk_id d) =
              pm0 @ row_entries r (cols @ [length newRow]) (ds @ [d])"
        using key_fresh [OF fresh len app(2)] by (simp add: pm_set_fresh row_entries_snoc [OF len])
      with False None b app(1) show ?thesis
        by (auto simp: place_desk_def)
    next
      case (Some i)
      from find_SomeD' [OF Some] have i: "i < numCols" "cell_free newRow i" by auto
      then have i_in: "i < length newRow" and free: "newRow ! i = ''--''"
        using wide by (auto simp: cell_free_def)
      note upd = row_ok_update(1) [OF ok i_in free t, where d = d] row_ok_update(2) [OF ok i_in free t]
      have "pm_set (pm0 @ row_entries r cols ds) (pos_key r i) (desk_id d) =
              pm0 @ row_entries r (cols @ [i]) (ds @ [d])"
        using key_fresh [OF fresh len upd(2)] by (simp add: pm_set_fresh row_entries_snoc [OF len])
      with False Some b upd(1) show ?thesis
        by (auto simp: place_desk_def)
    qed
  qed
qed

lemma fold_place_desk:
  assumes ok: "row_ok numCols newRow cols placed"
    and t: "\<forall>d \<in> set (placed @ ds). desk_type d \<noteq> ''--''"
    and cc: "cc \<noteq> []" "length cc \<le> numCols"
    and fresh: "\<forall>k \<in> fst ` set pm0. \<forall>c. k \<noteq> pos_key r c"
  shows "\<exists>cols' newRow'.
           fold (place_desk r numCols cc) ds (newRow, pm0 @ row_entries r cols placed) =
             (newRow', pm0 @ row_entries r cols' (placed @ ds)) \<and>
           row_ok numCols newRow' cols' (placed @ ds)"
  using ok t
proof (induction ds arbitrary: newRow cols placed)
  case Nil
  then show ?case by auto
next
  case (Cons d ds)
  from Cons.prems(2) have t': "\<forall>d \<in> set placed. desk_type d \<noteq> ''--''" by simp
  from place_desk_step [OF Cons.prems(1) t' cc fresh, of d]
  obtain c newRow' where step:
      "place_desk r numCols cc d (newRow, pm0 @ row_entries r cols placed) =
         (newRow', pm0 @ row_entries r (cols @ [c]) (placed @ [d]))"
      "row_ok numCols newRow' (cols @ [c]) (placed @ [d])"
    by blast
  from Cons.prems(2) have "\<forall>d \<in> set ((placed @ [d]) @ ds). desk_type d \<noteq> ''--''" by simp
  from Cons.IH [OF step(2) this] step(1) show ?case by simp
qed

lemma row_ok_start: "row_ok numCols (replicate numCols ''--'') [] []"
  by (simp add: row_ok_def)

lemma fill_row:
  assumes t: "\<forall>d \<in> set ds. desk_type d \<noteq> ''--''"
    and cc: "cc \<noteq> []" "length cc \<le> numCols"
    and fresh: "\<forall>k \<in> fst ` set pm0. \<forall>c. k \<noteq> pos_key r c"
  shows "\<exists>cols newRow.
           fold (place_desk r numCols cc) ds (replicate numCols ''--'', pm0) =
             (newRow, pm0 @ row_entries r cols ds) \<and>
           row_ok numCols newRow cols ds"
  using fold_place_desk [OF row_ok_start _ cc fresh, where ds = ds] t
  by (simp add: row_entries_def)

lemma build_grid_ok:
  assumes t: "\<forall>d \<in> set (concat rows). desk_type d \<noteq> ''--''"
    and cc: "cc \<noteq> []" "length cc \<le> numCols"
    and fresh: "\<forall>k \<in> fst ` set pm0. \<forall>r' \<ge> r. \<forall>c. k \<noteq> pos_key r' c"
  shows "\<exists>colss. grid_ok numCols (fst (build_grid numCols cc r rows pm0)) colss rows \<and>
                 snd (build_grid numCols cc r rows pm0) = pm0 @ grid_entries r colss rows"
  using t fresh
proof (induction rows arbitrary: r pm0)
  case Nil
  have "grid_ok numCols [] [] []" by simp
  then show ?case by (intro exI [of _ "[]"]) simp
next
  case (Cons ds rows)
  from Cons.prems(1) have t1: "\<forall>d \<in> set ds. desk_type d \<noteq> ''--''"
    and t2: "\<forall>d \<in> set (concat rows). desk_type d \<noteq> ''--''" by auto
  from Cons.prems(2) have fresh1: "\<forall>k \<in> fst ` set pm0. \<forall>c. k \<noteq> pos_key r c" by blast
  from fill_row [OF t1 cc fresh1] obtain cols newRow where row:
      "fold (place_desk r numCols cc) ds (replicate numCols ''--'', pm0) =
         (newRow, pm0 @ row_entries r cols ds)"
      "row_ok numCols newRow cols ds"
    by blast
  have len: "length cols = length ds" using row(2) by (simp add: row_ok_def)
  have fresh2: "\<forall>k \<in> fst ` set (pm0 @ row_entries r cols ds). \<forall>r' \<ge> r + 1. \<forall>c. k \<noteq> pos_key r' c"
  proof (intro ballI allI impI)
    fix k r' c assume k: "k \<in> fst ` set (pm0 @ row_entries r cols ds)" and r': "r + 1 \<le> r'"
    from k consider "k \<in> fst ` set pm0" | "k \<in> pos_key r ` set cols"
      by (auto simp: fst_row_entries [OF len] image_Un)
    then show "k \<noteq> pos_key r' c"
    proof cases
      case 1
      moreover from r' have "r \<le> r'" by simp
      ultimately show ?thesis using Cons.prems(2) by blast
    next
      case 2
      with r' show ?thesis by (auto simp: pos_key_inj)
    qed
  qed
  from Cons.IH [OF t2 fresh2] obtain colss where below:
      "grid_ok numCols (fst (build_grid numCols cc (r + 1) rows (pm0 @ row_entries r cols ds))) colss rows"
      "snd (build_grid numCols cc (r + 1) rows (pm0 @ row_entries r cols ds)) =
         (pm0 @ row_entries r cols ds) @ grid_entries (r + 1) colss rows"
    by blast
  show ?case
    using row below by (intro exI [of _ "cols # colss"]) (simp add: Let_def)
qed

lemma grid_ok_lengths:
  "grid_ok numCols grid colss rows \<Longrightarrow> length grid = length rows \<and> length colss = length rows"
  by (induction numCols grid colss rows rule: grid_ok.induct) auto

lemma grid_ok_nth:
  "grid_ok numCols grid colss rows \<Longrightarrow> i < length rows \<Longrightarrow>
   row_ok numCols (grid ! i) (colss ! i) (rows ! i)"
  by (induction numCols grid colss rows arbitrary: i rule: grid_ok.induct)
    (auto simp: nth_Cons split: nat.splits)

lemma in_row_entries:
  assumes "length cols = length ds"
  shows "(k, v) \<in> set (row_entries r cols ds) \<longleftrightarrow>
         (\<exists>j < length ds. k = pos_key r (cols ! j) \<and> v = desk_id (ds ! j))"
  using assms by (auto simp: row_entries_def set_zip)

lemma in_grid_entries:
  assumes "grid_ok numCols grid colss rows"
  shows "(k, v) \<in> set (grid_entries r colss rows) \<longleftrightarrow>
         (\<exists>i < length rows. \<exists>j < length (rows ! i).
            k = pos_key (r + i) (colss ! i ! j) \<and> v = desk_id (rows ! i ! j))"
  using assms
proof (induction numCols grid colss rows arbitrary: r rule: grid_ok.induct)
  case (2 numCols newRow grid cols colss ds rows)
  then have len: "length cols = length ds" and rest: "grid_ok numCols grid colss rows"
    by (auto simp: row_ok_def)
  have "(k, v) \<in> set (grid_entries r (cols # colss) (ds # rows)) \<longleftrightarrow>
          (\<exists>j < length ds. k = pos_key r (cols ! j) \<and> v = desk_id (ds ! j)) \<or>
          (\<exists>i < length rows. \<exists>j < length (rows ! i).
             k = pos_key (r + 1 + i) (colss ! i ! j) \<and> v = desk_id (rows ! i ! j))"
    using "2.IH" [OF rest, of "r + 1"] by (simp add: in_row_entries [OF len])
  also have "\<dots> \<longleftrightarrow> (\<exists>i < length (ds # rows). \<exists>j < length ((ds # rows) ! i).
            k = pos_key (r + i) ((cols # colss) ! i ! j) \<and> v = desk_id ((ds # rows) ! i ! j))"
    (is "?L \<longleftrightarrow> ?R")
  proof
    assume ?L
    then show ?R
    proof
      assume "\<exists>j < length ds. k = pos_key r (cols ! j) \<and> v = desk_id (ds ! j)"
      then show ?R by (intro exI [of _ 0]) simp
    next
      assume "\<exists>i < length rows. \<exists>j < length (rows ! i).
             k = pos_key (r + 1 + i) (colss ! i ! j) \<and> v = desk_id (rows ! i ! j)"
      then obtain i j where "i < length rows" "j < length (rows ! i)"
          "k = pos_key (r + 1 + i) (colss ! i ! j)" "v = desk_id (rows ! i ! j)" by blast
      then have "Suc i < length (ds # rows) \<and> j < length ((ds # rows) ! Suc i) \<and>
          k = pos_key (r + Suc i) ((cols # colss) ! Suc i ! j) \<and> v = desk_id ((ds # rows) ! Suc i ! j)"
        by simp
      then show ?R by blast
    qed
  next
    assume ?R
    then obtain i j where ij: "i < length (ds # rows)" "j < length ((ds # rows) ! i)"
        "k = pos_key (r + i) ((cols # colss) ! i ! j)" "v = desk_id ((ds # rows) ! i ! j)" by blast
    show ?L
    proof (cases i)
      case 0
      with ij show ?thesis by auto
    next
      case (Suc i')
      with ij show ?thesis by auto
    qed
  qed
  finally show ?case .
qed auto

lemma map_fst_row_entries:
  "length cols = length ds \<Longrightarrow> map fst (row_entries r cols ds) = map (pos_key r) cols"
  by (induction cols ds rule: list_induct2) (auto simp: row_entries_def)

lemma map_snd_row_entries:
  "length cols = length ds \<Longrightarrow> map snd (row_entries r cols ds) = map desk_id ds"
  by (induction cols ds rule: list_induct2) (auto simp: row_entries_def)

lemma map_snd_grid_entries:
  "grid_ok numCols grid colss rows \<Longrightarrow>
   map snd (grid_entries r colss rows) = map desk_id (concat rows)"
  by (induction numCols grid colss rows arbitrary: r rule: grid_ok.induct)
    (auto simp: map_snd_row_entries row_ok_def)

lemma distinct_keys_grid_entries:
  "grid_ok numCols grid colss rows \<Longrightarrow> distinct (map fst (grid_entries r colss rows))"
proof (induction numCols grid colss rows arbitrary: r rule: grid_ok.induct)
  case (2 numCols newRow grid cols colss ds rows)
  then have ok: "row_ok numCols newRow cols ds" and rest: "grid_ok numCols grid colss rows"
    by auto
  then have len: "length cols = length ds" and dist: "distinct cols"
    by (auto simp: row_ok_def)
  have "distinct (map (pos_key r) cols)"
    using dist by (simp add: distinct_map inj_on_def pos_key_inj)
  moreover have "distinct (map fst (grid_entries (r + 1) colss rows))"
    using "2.IH" [OF rest] .
  moreover have "set (map (pos_key r) cols) \<inter> set (map fst (grid_entries (r + 1) colss rows)) = {}"
  proof -
    have "k \<notin> set (map (pos_key r) cols)" if "k \<in> set (map fst (grid_entries (r + 1) colss rows))" for k
    proof -
      from that obtain v where "(k, v) \<in> set (grid_entries (r + 1) colss rows)" by auto
      then obtain i c where "k = pos_key (r + 1 + i) c"
        unfolding in_grid_entries [OF rest] by blast
      then show ?thesis by (auto simp: pos_key_inj)
    qed
    then show ?thesis by blast
  qed
  ultimately show ?case
    by (simp add: map_fst_row_entries [OF len])
qed auto

subsection \<open>Rows\<close>

lemma mset_row_loop:
  "mset (concat (row_loop rows first pushed rest)) =
     mset (concat rows) + add_mset first (mset pushed) + mset rest"
  by (induction rest arbitrary: rows first pushed) (auto simp: mset_js_sort)

lemma row_loop_not_Nil: "row_loop rows first pushed rest \<noteq> []"
  by (induction rest arbitrary: rows first pushed) auto

lemma mset_group_rows: "mset (concat (group_rows objs)) = mset objs"
proof (cases "js_sort y_cmp objs")
  case Nil
  then have "objs = []" by (metis length_0_conv length_js_sort)
  with Nil show ?thesis by (simp add: group_rows_def)
next
  case (Cons first rest)
  then have "mset (concat (group_rows objs)) = mset (js_sort y_cmp objs)"
    by (simp add: group_rows_def mset_row_loop)
  then show ?thesis by (simp add: mset_js_sort)
qed

lemma group_rows_not_Nil: "objs \<noteq> [] \<Longrightarrow> group_rows objs \<noteq> []"
proof -
  assume "objs \<noteq> []"
  then have "js_sort y_cmp objs \<noteq> []" by (metis length_0_conv length_js_sort)
  then show ?thesis
    by (auto simp: group_rows_def row_loop_not_Nil split: list.splits)
qed

lemma set_concat_group_rows: "set (concat (group_rows objs)) = set objs"
  by (metis mset_group_rows set_mset_mset)

subsection \<open>Columns\<close>

lemma cluster_loop_not_Nil: "cluster_loop columnCenters earlier lastInCluster rest \<noteq> []"
  by (induction rest arbitrary: columnCenters earlier lastInCluster) auto

lemma column_centers_not_Nil: "objs \<noteq> [] \<Longrightarrow> column_centers objs \<noteq> []"
proof -
  assume "objs \<noteq> []"
  then have "set (uniq (map (\<lambda>d. desk_x d + desk_width d / 2) objs)) \<noteq> {}"
    by (simp add: set_uniq)
  then have "js_sort (\<lambda>a b. a - b) (uniq (map (\<lambda>d. desk_x d + desk_width d / 2) objs)) \<noteq> []"
    by (metis set_js_sort set_empty)
  then show ?thesis
    by (auto simp: column_centers_def Let_def cluster_loop_not_Nil split: list.splits)
qed

subsection \<open>Padding\<close>

lemma fold_max_ge: "m \<le> fold (\<lambda>row m. max m (length row)) grid (m::nat)"
proof (induction grid arbitrary: m)
  case (Cons row grid)
  have "m \<le> max m (length row)" by simp
  also have "\<dots> \<le> fold (\<lambda>row m. max m (length row)) grid (max m (length row))" by (rule Cons.IH)
  finally show ?case by simp
qed simp

lemma fold_max_ge_row:
  "row \<in> set grid \<Longrightarrow> length row \<le> fold (\<lambda>row m. max m (length row)) grid (m::nat)"
proof (induction grid arbitrary: m)
  case (Cons a grid)
  show ?case
  proof (cases "row = a")
    case True
    have "length a \<le> max m (length a)" by simp
    also have "\<dots> \<le> fold (\<lambda>row m. max m (length row)) grid (max m (length a))" by (rule fold_max_ge)
    finally show ?thesis using True by simp
  next
    case False
    with Cons show ?thesis by simp
  qed
qed simp

lemma length_pad_rows: "length (pad_rows grid) = length grid"
  by (simp add: pad_rows_def Let_def)

lemma pad_rows_nth:
  "i < length grid \<Longrightarrow>
   pad_rows grid ! i = grid ! i @ replicate (max_len grid - length (grid ! i)) ''--''"
  by (simp add: pad_rows_def Let_def max_len_def)

lemma length_pad_rows_nth:
  "i < length grid \<Longrightarrow> length (pad_rows grid ! i) = max_len grid"
  using fold_max_ge_row [of "grid ! i" grid 0]
  by (simp add: pad_rows_nth max_len_def)

subsection \<open>The result of the conversion\<close>

lemma convert_empty:
  "convertObjectsToLayoutMatrix [] = \<lparr> matrix = [], layout = [], positionMap = [], numberedMatrix = [] \<rparr>"
  by (simp add: convertObjectsToLayoutMatrix_def)

lemma convert_nonempty:
  assumes ne: "objs \<noteq> []" and t: "\<forall>d \<in> set objs. desk_type d \<noteq> ''--''"
  obtains numCols grid colss where
    "grid_ok numCols grid colss (group_rows objs)"
    "0 < numCols"
    "layout (convertObjectsToLayoutMatrix objs) = pad_rows grid"
    "positionMap (convertObjectsToLayoutMatrix objs) = grid_entries 0 colss (group_rows objs)"
    "matrix (convertObjectsToLayoutMatrix objs) = join [CHR 0x0A] (map (join '','') (pad_rows grid))"
    "numberedMatrix (convertObjectsToLayoutMatrix objs) =
       join [CHR 0x0A] (map (\<lambda>row. join '','' (map (padEnd 5) row))
         (numbered_grid (grid_entries 0 colss (group_rows objs)) (deskNumberMap objs) (pad_rows grid)))"
proof -
  let ?cc = "column_centers objs"
  let ?n = "length ?cc"
  have cc: "?cc \<noteq> []" "length ?cc \<le> ?n" using column_centers_not_Nil [OF ne] by auto
  have t': "\<forall>d \<in> set (concat (group_rows objs)). desk_type d \<noteq> ''--''"
    using t by (simp only: set_concat_group_rows)
  have fresh: "\<forall>k \<in> fst ` set ([] :: PositionMap). \<forall>r' \<ge> 0. \<forall>c. k \<noteq> pos_key r' c" by simp
  from build_grid_ok [OF t' cc fresh] obtain colss where
      g: "grid_ok ?n (fst (build_grid ?n ?cc 0 (group_rows objs) [])) colss (group_rows objs)"
      and pm: "snd (build_grid ?n ?cc 0 (group_rows objs) []) = grid_entries 0 colss (group_rows objs)"
    by auto
  have rows: "group_rows objs \<noteq> []" using group_rows_not_Nil [OF ne] .
  have pos: "0 < ?n" using cc(1) by simp
  show ?thesis
    by (rule that [OF g pos]) (use ne rows cc(1) pm in \<open>simp_all add: convertObjectsToLayoutMatrix_def Let_def\<close>)
qed

lemma distinct_ids_rows:
  assumes "distinct (map desk_id objs)"
  shows "distinct (map desk_id (concat (group_rows objs)))"
proof -
  have "mset (map desk_id (concat (group_rows objs))) = mset (map desk_id objs)"
  proof -
    have "mset (map desk_id (concat (group_rows objs))) = image_mset desk_id (mset (concat (group_rows objs)))"
      by simp
    also have "\<dots> = image_mset desk_id (mset objs)"
      by (simp only: mset_group_rows)
    also have "\<dots> = mset (map desk_id objs)"
      by simp
    finally show ?thesis .
  qed
  then show ?thesis using assms mset_eq_imp_distinct_iff by blast
qed

lemma pm_get_iff:
  assumes "grid_ok numCols grid colss rows"
  shows "pm_get (grid_entries 0 colss rows) k = Some v \<longleftrightarrow>
         (\<exists>i < length rows. \<exists>j < length (rows ! i).
            k = pos_key i (colss ! i ! j) \<and> v = desk_id (rows ! i ! j))"
  using in_grid_entries [OF assms, of k v 0] distinct_keys_grid_entries [OF assms, of 0]
  by (simp add: pm_get_def)

lemma pm_get_unique_key:
  assumes g: "grid_ok numCols grid colss rows"
    and d: "distinct (map desk_id (concat rows))"
    and k: "pm_get (grid_entries 0 colss rows) k = Some v"
    and k': "pm_get (grid_entries 0 colss rows) k' = Some v"
  shows "k = k'"
proof -
  let ?pm = "grid_entries 0 colss rows"
  have "distinct (map snd ?pm)" using d by (simp add: map_snd_grid_entries [OF g])
  then have inj: "inj_on snd (set ?pm)" by (simp add: distinct_map)
  from k k' have "(k, v) \<in> set ?pm" "(k', v) \<in> set ?pm"
    by (auto simp: pm_get_def dest: map_of_SomeD)
  with inj have "snd (k, v) = snd (k', v) \<longrightarrow> (k, v) = (k', v)"
    unfolding inj_on_def by blast
  then show ?thesis by simp
qed

lemma pad_cell:
  assumes "i < length grid" and "c < length (grid ! i)"
  shows "pad_rows grid ! i ! c = grid ! i ! c"
  using assms by (simp add: pad_rows_nth nth_append)

lemma pad_cell_beyond:
  assumes "i < length grid" and "length (grid ! i) \<le> c" and "c < length (pad_rows grid ! i)"
  shows "pad_rows grid ! i ! c = ''--''"
  using assms by (simp add: pad_rows_nth nth_append)

text \<open>
  C3. For desks with distinct ids whose type code is not the filler "--": all rows of the
  returned layout grid have the same length; every desk has a cell \<open>(r, c)\<close> of the grid that
  holds its type code and whose key \<open>"r-c"\<close> the position map sends to its id, and no other key
  of the position map has that id; and a cell whose key is not in the position map holds
  the filler "--".
\<close>

theorem C3_grid_rectangular_every_desk_in_one_cell:
  assumes ids: "distinct (map desk_id objs)"
    and t: "\<forall>d \<in> set objs. desk_type d \<noteq> ''--''"
  shows "(\<forall>row \<in> set (layout (convertObjectsToLayoutMatrix objs)).
          \<forall>row' \<in> set (layout (convertObjectsToLayoutMatrix objs)). length row = length row') \<and>
         (\<forall>d \<in> set objs.
            \<exists>r c. r < length (layout (convertObjectsToLayoutMatrix objs)) \<and>
                  c < length (layout (convertObjectsToLayoutMatrix objs) ! r) \<and>
                  layout (convertObjectsToLayoutMatrix objs) ! r ! c = desk_type d \<and>
                  pm_get (positionMap (convertObjectsToLayoutMatrix objs)) (pos_key r c) = Some (desk_id d) \<and>
                  (\<forall>k. pm_get (positionMap (convertObjectsToLayoutMatrix objs)) k = Some (desk_id d)
                       \<longrightarrow> k = pos_key r c)) \<and>
         (\<forall>r < length (layout (convertObjectsToLayoutMatrix objs)).
            \<forall>c < length (layout (convertObjectsToLayoutMatrix objs) ! r).
              pm_get (positionMap (convertObjectsToLayoutMatrix objs)) (pos_key r c) = None \<longrightarrow>
              layout (convertObjectsToLayoutMatrix objs) ! r ! c = ''--'')"
proof (cases "objs = []")
  case True
  then show ?thesis by (simp add: convert_empty)
next
  case False
  let ?rows = "group_rows objs"
  from convert_nonempty [OF False t] obtain numCols grid colss where
      g: "grid_ok numCols grid colss ?rows"
      and lay: "layout (convertObjectsToLayoutMatrix objs) = pad_rows grid"
      and pm: "positionMap (convertObjectsToLayoutMatrix objs) = grid_entries 0 colss ?rows"
    by blast
  have len: "length grid = length ?rows" "length colss = length ?rows"
    using grid_ok_lengths [OF g] by auto
  have rect: "\<forall>row \<in> set (pad_rows grid). \<forall>row' \<in> set (pad_rows grid). length row = length row'"
  proof (intro ballI)
    fix row row' assume "row \<in> set (pad_rows grid)" "row' \<in> set (pad_rows grid)"
    then obtain i i' where "i < length grid" "row = pad_rows grid ! i"
        "i' < length grid" "row' = pad_rows grid ! i'"
      by (auto simp: in_set_conv_nth length_pad_rows)
    then show "length row = length row'" by (simp add: length_pad_rows_nth)
  qed
  have desks: "\<exists>r c. r < length (pad_rows grid) \<and> c < length (pad_rows grid ! r) \<and>
                 pad_rows grid ! r ! c = desk_type d \<and>
                 pm_get (grid_entries 0 colss ?rows) (pos_key r c) = Some (desk_id d) \<and>
                 (\<forall>k. pm_get (grid_entries 0 colss ?rows) k = Some (desk_id d) \<longrightarrow> k = pos_key r c)"
    if "d \<in> set objs" for d
  proof -
    from that have "d \<in> set (concat ?rows)" by (simp only: set_concat_group_rows)
    then obtain i j where ij: "i < length ?rows" "j < length (?rows ! i)" "?rows ! i ! j = d"
      by (auto simp: in_set_conv_nth)
    let ?c = "colss ! i ! j"
    have ok: "row_ok numCols (grid ! i) (colss ! i) (?rows ! i)"
      using grid_ok_nth [OF g ij(1)] .
    then have c: "?c < length (grid ! i)" and cell: "grid ! i ! ?c = desk_type d"
      using ij by (auto simp: row_ok_def)
    have i: "i < length grid" using ij(1) len by simp
    have "length (grid ! i) \<le> length (pad_rows grid ! i)"
      by (simp add: pad_rows_nth [OF i])
    with c have c': "?c < length (pad_rows grid ! i)" by simp
    have get: "pm_get (grid_entries 0 colss ?rows) (pos_key i ?c) = Some (desk_id d)"
      unfolding pm_get_iff [OF g] using ij by blast
    have uniq: "\<forall>k. pm_get (grid_entries 0 colss ?rows) k = Some (desk_id d) \<longrightarrow> k = pos_key i ?c"
      using pm_get_unique_key [OF g distinct_ids_rows [OF ids] _ get] by blast
    have r_in: "i < length (pad_rows grid)" using i by (simp add: length_pad_rows)
    have cell': "pad_rows grid ! i ! ?c = desk_type d"
      using cell by (simp add: pad_cell [OF i c])
    from r_in c' cell' get uniq show ?thesis by blast
  qed
  have blanks: "pad_rows grid ! r ! c = ''--''"
    if r: "r < length (pad_rows grid)" and c: "c < length (pad_rows grid ! r)"
      and none: "pm_get (grid_entries 0 colss ?rows) (pos_key r c) = None" for r c
  proof (cases "c < length (grid ! r)")
    case True
    have r': "r < length ?rows" "r < length grid" using r len by (simp_all add: length_pad_rows)
    have ok: "row_ok numCols (grid ! r) (colss ! r) (?rows ! r)"
      using grid_ok_nth [OF g r'(1)] .
    have "c \<notin> set (colss ! r)"
    proof
      assume "c \<in> set (colss ! r)"
      then obtain j where "j < length (colss ! r)" "colss ! r ! j = c"
        by (auto simp: in_set_conv_nth)
      with ok have "j < length (?rows ! r)" "pos_key r c = pos_key r (colss ! r ! j)"
        by (auto simp: row_ok_def)
      with r'(1) have "pm_get (grid_entries 0 colss ?rows) (pos_key r c) = Some (desk_id (?rows ! r ! j))"
        unfolding pm_get_iff [OF g] by blast
      with none show False by simp
    qed
    with ok True have "grid ! r ! c = ''--''" by (simp add: row_ok_def)
    with True r'(2) show ?thesis by (simp add: pad_cell)
  next
    case False
    with r c show ?thesis by (simp add: pad_cell_beyond length_pad_rows)
  qed
  from rect desks blanks show ?thesis
    unfolding lay pm by blast
qed

lemma single_behind_triple_eval:
  "convertObjectsToLayoutMatrix single_behind_triple =
     \<lparr> matrix = ''1'' @ [CHR 0x0A] @ ''111'', layout = [[''1''], [''111'']],
       positionMap = [(''0-0'', ''a''), (''1-0'', ''b'')],
       numberedMatrix = ''L2   '' @ [CHR 0x0A] @ ''L1   '' \<rparr>"
  by code_simp

theorem C3_grid_rectangular_every_desk_in_one_cell_witness:
  "\<exists>r c. r < length (layout (convertObjectsToLayoutMatrix single_behind_triple)) \<and>
         c < length (layout (convertObjectsToLayoutMatrix single_behind_triple) ! r) \<and>
         layout (convertObjectsToLayoutMatrix single_behind_triple) ! r ! c = ''111'' \<and>
         pm_get (positionMap (convertObjectsToLayoutMatrix single_behind_triple)) (pos_key r c) = Some ''b''"
proof -
  have ids: "distinct (map desk_id single_behind_triple)"
    by (simp add: single_behind_triple_def desk_at_def)
  have t: "\<forall>d \<in> set single_behind_triple. desk_type d \<noteq> ''--''"
    by (simp add: single_behind_triple_def desk_at_def)
  have b: "desk_at ''b'' ''111'' 0 6 12 4 \<in> set single_behind_triple"
    by (simp add: single_behind_triple_def)
  have ty: "desk_type (desk_at ''b'' ''111'' 0 6 12 4) = ''111''"
    and i: "desk_id (desk_at ''b'' ''111'' 0 6 12 4) = ''b''"
    by (simp_all add: desk_at_def)
  from C3_grid_rectangular_every_desk_in_one_cell [OF ids t]
  have "\<forall>d \<in> set single_behind_triple.
          \<exists>r c. r < length (layout (convertObjectsToLayoutMatrix single_behind_triple)) \<and>
                c < length (layout (convertObjectsToLayoutMatrix single_behind_triple) ! r) \<and>
                layout (convertObjectsToLayoutMatrix single_behind_triple) ! r ! c = desk_type d \<and>
                pm_get (positionMap (convertObjectsToLayoutMatrix single_behind_triple)) (pos_key r c) =
                  Some (desk_id d) \<and>
                (\<forall>k. pm_get (positionMap (convertObjectsToLayoutMatrix single_behind_triple)) k =
                       Some (desk_id d) \<longrightarrow> k = pos_key r c)"
    by (rule conjunct1 [OF conjunct2])
  from bspec [OF this b] show ?thesis
    unfolding ty i by blast
qed

section \<open>The numbered matrix\<close>

subsection \<open>The desk numbers\<close>

lemma number_desks_other:
  "x \<notin> desk_id ` set s \<Longrightarrow> number_desks i s m x = m x"
  by (induction s arbitrary: i m) auto

lemma number_desks_nth:
  assumes "distinct (map desk_id s)" and "k < length s"
  shows "number_desks i s m (desk_id (s ! k)) = Some (i + k + 1)"
  using assms
proof (induction s arbitrary: i m k)
  case Nil
  then show ?case by simp
next
  case (Cons d s)
  show ?case
  proof (cases k)
    case 0
    with Cons.prems show ?thesis
      by (simp add: number_desks_other)
  next
    case (Suc k')
    with Cons.prems have "number_desks (i + 1) s (m(desk_id d \<mapsto> i + 1)) (desk_id (s ! k')) = Some (i + 1 + k' + 1)"
      by (intro Cons.IH) auto
    with Suc show ?thesis by simp
  qed
qed

lemma distinct_ids_uiSorted:
  "distinct (map desk_id objs) \<Longrightarrow> distinct (map desk_id (uiSortedObjects objs))"
proof -
  assume d: "distinct (map desk_id objs)"
  have "mset (map desk_id (uiSortedObjects objs)) = image_mset desk_id (mset (uiSortedObjects objs))"
    by simp
  also have "\<dots> = image_mset desk_id (mset objs)"
    by (simp only: uiSortedObjects_def mset_js_sort)
  also have "\<dots> = mset (map desk_id objs)" by simp
  finally show ?thesis using d mset_eq_imp_distinct_iff by blast
qed

lemma deskNumberMap_nth:
  assumes "distinct (map desk_id objs)" and "k < length objs"
  shows "deskNumberMap objs (desk_id (uiSortedObjects objs ! k)) = Some (k + 1)"
proof -
  have "k < length (uiSortedObjects objs)"
    using assms(2) by (simp add: uiSortedObjects_def length_js_sort)
  from number_desks_nth [OF distinct_ids_uiSorted [OF assms(1)] this, of 0 Map.empty]
  show ?thesis by (simp add: deskNumberMap_def)
qed

subsection \<open>The numbered grid\<close>

lemma length_numbered_grid: "length (numbered_grid pm nums grid) = length grid"
  by (simp add: numbered_grid_def)

lemma numbered_grid_row:
  "r < length grid \<Longrightarrow>
   numbered_grid pm nums grid ! r =
     map (\<lambda>(colIndex, deskType). numbered_cell pm nums r colIndex deskType) (enumerate 0 (grid ! r))"
  by (simp add: numbered_grid_def nth_enumerate_eq)

lemma length_numbered_grid_row:
  "r < length grid \<Longrightarrow> length (numbered_grid pm nums grid ! r) = length (grid ! r)"
  by (simp add: numbered_grid_row)

lemma numbered_grid_cell:
  "r < length grid \<Longrightarrow> c < length (grid ! r) \<Longrightarrow>
   numbered_grid pm nums grid ! r ! c = numbered_cell pm nums r c (grid ! r ! c)"
  by (simp add: numbered_grid_row nth_enumerate_eq)

subsection \<open>The cells that are not fillers\<close>

lemma filled_cells_mset:
  assumes "distinct cols"
    and "\<forall>c \<in> set cols. c < length xs \<and> xs ! c \<noteq> ''--''"
    and "\<forall>c < length xs. c \<notin> set cols \<longrightarrow> xs ! c = ''--''"
  shows "mset (filter (\<lambda>cell. cell \<noteq> ''--'') xs) = mset (map ((!) xs) cols)"
  using assms
proof (induction xs arbitrary: cols rule: rev_induct)
  case Nil
  then have "cols = []" by (cases cols) auto
  then show ?case by simp
next
  case (snoc x xs)
  show ?case
  proof (cases "x = ''--''")
    case True
    have notin: "length xs \<notin> set cols"
    proof
      assume "length xs \<in> set cols"
      with snoc.prems(2) have "(xs @ [x]) ! length xs \<noteq> ''--''" by blast
      with True show False by simp
    qed
    have lt: "\<forall>c \<in> set cols. c < length xs"
    proof
      fix c assume c: "c \<in> set cols"
      with snoc.prems(2) have "c < Suc (length xs)" by auto
      with c notin show "c < length xs" by (cases "c = length xs") auto
    qed
    have IH: "mset (filter (\<lambda>cell. cell \<noteq> ''--'') xs) = mset (map ((!) xs) cols)"
    proof (rule snoc.IH [OF snoc.prems(1)])
      show "\<forall>c \<in> set cols. c < length xs \<and> xs ! c \<noteq> ''--''"
        using snoc.prems(2) lt by (auto simp: nth_append)
      show "\<forall>c < length xs. c \<notin> set cols \<longrightarrow> xs ! c = ''--''"
        using snoc.prems(3) by (auto simp: nth_append less_Suc_eq)
    qed
    have eq: "map ((!) (xs @ [x])) cols = map ((!) xs) cols"
      using lt by (auto simp: nth_append)
    have "filter (\<lambda>cell. cell \<noteq> ''--'') (xs @ [x]) = filter (\<lambda>cell. cell \<noteq> ''--'') xs"
      using True by simp
    then show ?thesis unfolding eq using IH by simp
  next
    case False
    have isin: "length xs \<in> set cols"
    proof (rule ccontr)
      assume "length xs \<notin> set cols"
      moreover have "length xs < length (xs @ [x])" by simp
      ultimately have "(xs @ [x]) ! length xs = ''--''" using snoc.prems(3) by blast
      with False show False by simp
    qed
    let ?cols = "remove1 (length xs) cols"
    have d': "distinct ?cols" using snoc.prems(1) by simp
    have set': "set ?cols = set cols - {length xs}" using snoc.prems(1) by simp
    have lt: "\<forall>c \<in> set ?cols. c < length xs"
    proof
      fix c assume c: "c \<in> set ?cols"
      with set' snoc.prems(2) have "c < Suc (length xs)" "c \<noteq> length xs" by auto
      then show "c < length xs" by simp
    qed
    have IH: "mset (filter (\<lambda>cell. cell \<noteq> ''--'') xs) = mset (map ((!) xs) ?cols)"
    proof (rule snoc.IH [OF d'])
      show "\<forall>c \<in> set ?cols. c < length xs \<and> xs ! c \<noteq> ''--''"
      proof
        fix c assume c: "c \<in> set ?cols"
        with lt have l: "c < length xs" by simp
        from c set' snoc.prems(2) have "(xs @ [x]) ! c \<noteq> ''--''" by auto
        with l show "c < length xs \<and> xs ! c \<noteq> ''--''" by (simp add: nth_append)
      qed
      show "\<forall>c < length xs. c \<notin> set ?cols \<longrightarrow> xs ! c = ''--''"
        using snoc.prems(3) set' by (auto simp: nth_append less_Suc_eq)
    qed
    have "mset cols = add_mset (length xs) (mset ?cols)"
      using isin by simp
    then have "mset (map ((!) (xs @ [x])) cols) =
        add_mset ((xs @ [x]) ! length xs) (mset (map ((!) (xs @ [x])) ?cols))"
      by (metis image_mset_add_mset mset_map)
    also have "map ((!) (xs @ [x])) ?cols = map ((!) xs) ?cols"
      using lt by (auto simp: nth_append)
    finally show ?thesis using False IH by simp
  qed
qed

lemma concat_rows_mset:
  assumes "length A = length B"
    and "\<forall>i < length B. mset (filter P (A ! i)) = mset (map f (B ! i))"
  shows "mset (filter P (concat A)) = mset (map f (concat B))"
  using assms
proof (induction A B rule: list_induct2)
  case Nil
  then show ?case by simp
next
  case (Cons a A b B)
  from Cons.prems have "mset (filter P a) = mset (map f b)" by auto
  moreover from Cons.prems have "\<forall>i < length B. mset (filter P (A ! i)) = mset (map f (B ! i))" by auto
  ultimately show ?case using Cons.IH by simp
qed

subsection \<open>Sorting with a comparator that is a total preorder on the elements\<close>

lemma set_js_insort: "set (js_insort cmp a bs) = insert a (set bs)"
  by (induction bs) auto

lemma sorted_js_insort:
  assumes tot: "\<forall>b \<in> set bs. cmp a b \<le> 0 \<or> cmp b a \<le> 0"
    and trans: "\<forall>b \<in> set bs. \<forall>c \<in> set bs. cmp a b \<le> 0 \<and> cmp b c \<le> 0 \<longrightarrow> cmp a c \<le> 0"
    and sorted: "sorted_wrt (\<lambda>a b. cmp a b \<le> 0) bs"
  shows "sorted_wrt (\<lambda>a b. cmp a b \<le> 0) (js_insort cmp a bs)"
  using assms
proof (induction bs)
  case Nil
  then show ?case by simp
next
  case (Cons b bs)
  show ?case
  proof (cases "cmp a b \<le> 0")
    case True
    have "cmp a c \<le> 0" if "c \<in> set bs" for c
    proof -
      from Cons.prems(3) that have "cmp b c \<le> 0" by simp
      with True Cons.prems(2) that show ?thesis by auto
    qed
    with True Cons.prems(3) show ?thesis by simp
  next
    case False
    with Cons.prems(1) have ba: "cmp b a \<le> 0" by auto
    have p1: "\<forall>b \<in> set bs. cmp a b \<le> 0 \<or> cmp b a \<le> 0"
      using Cons.prems(1) by simp
    have p2: "\<forall>b \<in> set bs. \<forall>c \<in> set bs. cmp a b \<le> 0 \<and> cmp b c \<le> 0 \<longrightarrow> cmp a c \<le> 0"
    proof (intro ballI impI)
      fix b' c assume "b' \<in> set bs" "c \<in> set bs" and le: "cmp a b' \<le> 0 \<and> cmp b' c \<le> 0"
      then have "b' \<in> set (b # bs)" "c \<in> set (b # bs)" by simp_all
      with Cons.prems(2) le show "cmp a c \<le> 0" by blast
    qed
    have p3: "sorted_wrt (\<lambda>a b. cmp a b \<le> 0) bs"
      using Cons.prems(3) by simp
    have rest: "sorted_wrt (\<lambda>a b. cmp a b \<le> 0) (js_insort cmp a bs)"
      by (rule Cons.IH [OF p1 p2 p3])
    have "cmp b c \<le> 0" if "c \<in> set (js_insort cmp a bs)" for c
    proof (cases "c = a")
      case True
      with ba show ?thesis by simp
    next
      case False
      with that have "c \<in> set bs" by (simp add: set_js_insort)
      with Cons.prems(3) show ?thesis by simp
    qed
    with rest False show ?thesis by simp
  qed
qed

lemma sorted_js_sort:
  assumes tot: "\<And>a b. a \<in> set xs \<Longrightarrow> b \<in> set xs \<Longrightarrow> cmp a b \<le> 0 \<or> cmp b a \<le> 0"
    and trans: "\<And>a b c. a \<in> set xs \<Longrightarrow> b \<in> set xs \<Longrightarrow> c \<in> set xs \<Longrightarrow>
                  cmp a b \<le> 0 \<Longrightarrow> cmp b c \<le> 0 \<Longrightarrow> cmp a c \<le> 0"
  shows "sorted_wrt (\<lambda>a b. cmp a b \<le> 0) (js_sort cmp xs)"
  using assms
proof (induction xs)
  case Nil
  show ?case by (simp add: js_sort_def)
next
  case (Cons a xs)
  have IH: "sorted_wrt (\<lambda>a b. cmp a b \<le> 0) (js_sort cmp xs)"
  proof (rule Cons.IH)
    fix b c assume "b \<in> set xs" "c \<in> set xs"
    then show "cmp b c \<le> 0 \<or> cmp c b \<le> 0"
      using Cons.prems(1) [of b c] by simp
  next
    fix b c d assume "b \<in> set xs" "c \<in> set xs" "d \<in> set xs" "cmp b c \<le> 0" "cmp c d \<le> 0"
    then show "cmp b d \<le> 0"
      using Cons.prems(2) [of b c d] by simp
  qed
  have set: "set (js_sort cmp xs) = set xs" by (rule set_js_sort)
  have "sorted_wrt (\<lambda>a b. cmp a b \<le> 0) (js_insort cmp a (js_sort cmp xs))"
  proof (rule sorted_js_insort [OF _ _ IH])
    show "\<forall>b \<in> set (js_sort cmp xs). cmp a b \<le> 0 \<or> cmp b a \<le> 0"
    proof
      fix b assume "b \<in> set (js_sort cmp xs)"
      then have "b \<in> set (a # xs)" by (simp add: set)
      then show "cmp a b \<le> 0 \<or> cmp b a \<le> 0"
        using Cons.prems(1) [of a b] by simp
    qed
    show "\<forall>b \<in> set (js_sort cmp xs). \<forall>c \<in> set (js_sort cmp xs).
            cmp a b \<le> 0 \<and> cmp b c \<le> 0 \<longrightarrow> cmp a c \<le> 0"
    proof (intro ballI impI)
      fix b c assume "b \<in> set (js_sort cmp xs)" "c \<in> set (js_sort cmp xs)"
        and le: "cmp a b \<le> 0 \<and> cmp b c \<le> 0"
      then have "b \<in> set (a # xs)" "c \<in> set (a # xs)"
        by (simp_all add: set)
      then show "cmp a c \<le> 0"
        using Cons.prems(2) [of a b c] le by simp
    qed
  qed
  then show ?case by (simp add: js_sort_def)
qed

subsection \<open>The comparator of the numbering\<close>

lemma ui_cmp_before: "ui_cmp a b < 0 \<longleftrightarrow> comes_before a b"
  by (auto simp: ui_cmp_def comes_before_def near_def Let_def)

lemma ui_cmp_flip: "ui_cmp b a = - ui_cmp a b"
  by (auto simp: ui_cmp_def Let_def abs_minus_commute)

lemma ui_cmp_total: "ui_cmp a b \<le> 0 \<or> ui_cmp b a \<le> 0"
  using ui_cmp_flip [of b a] by linarith

lemma ui_cmp_near: "near a b \<Longrightarrow> ui_cmp a b = desk_x a - desk_x b"
  by (simp add: ui_cmp_def near_def Let_def)

lemma ui_cmp_far: "\<not> near a b \<Longrightarrow> ui_cmp a b = desk_y b - desk_y a"
  by (simp add: ui_cmp_def near_def Let_def)

lemma near_sym: "near a b \<longleftrightarrow> near b a"
  by (simp add: near_def abs_minus_commute)

lemma far_le: "\<not> near a b \<Longrightarrow> ui_cmp a b \<le> 0 \<Longrightarrow> desk_y b + 2 < desk_y a"
  by (simp add: ui_cmp_far) (simp add: near_def DESK_HEIGHT_UNITS_def)

lemma near_le: "near a b \<Longrightarrow> \<bar>desk_y a - desk_y b\<bar> \<le> 2"
  by (simp add: near_def DESK_HEIGHT_UNITS_def)

lemma ui_cmp_trans:
  assumes ab: "ui_cmp a b \<le> 0" and bc: "ui_cmp b c \<le> 0"
    and n1: "near a b \<and> near b c \<longrightarrow> near a c"
    and n2: "near b a \<and> near a c \<longrightarrow> near b c"
    and n3: "near a c \<and> near c b \<longrightarrow> near a b"
  shows "ui_cmp a c \<le> 0"
proof (cases "near a b")
  case nab: True
  show ?thesis
  proof (cases "near b c")
    case True
    with nab n1 have "near a c" by simp
    with nab True ab bc show ?thesis by (simp add: ui_cmp_near)
  next
    case False
    have nac: "\<not> near a c"
      using n2 nab False near_sym by blast
    from far_le [OF False bc] near_le [OF nab] have "desk_y c < desk_y a" by linarith
    with nac show ?thesis by (simp add: ui_cmp_far)
  qed
next
  case fab: False
  note y1 = far_le [OF fab ab]
  show ?thesis
  proof (cases "near b c")
    case True
    have nac: "\<not> near a c"
      using n3 fab True near_sym by blast
    from y1 near_le [OF True] have "desk_y c < desk_y a" by linarith
    with nac show ?thesis by (simp add: ui_cmp_far)
  next
    case False
    from y1 far_le [OF False bc] have far: "desk_y c + 2 < desk_y a" by linarith
    then have "\<not> near a c" by (auto simp: near_def DESK_HEIGHT_UNITS_def)
    with far show ?thesis by (simp add: ui_cmp_far)
  qed
qed

lemma numbered_cell_plain: "plain_cell (numbered_cell pm nums r c t)"
  by (auto simp: numbered_cell_def plain_label [simplified] plain_filler split: option.splits)

lemma numbered_cell_filler: "numbered_cell pm nums r c ''--'' = ''--''"
  by (simp add: numbered_cell_def)

lemma pad_row_cell_blank:
  assumes g: "grid_ok numCols grid colss rows" and i: "i < length rows"
    and c: "c < length (pad_rows grid ! i)" and notin: "c \<notin> set (colss ! i)"
  shows "pad_rows grid ! i ! c = ''--''"
proof -
  have ig: "i < length grid" using grid_ok_lengths [OF g] i by simp
  have ok: "row_ok numCols (grid ! i) (colss ! i) (rows ! i)" using grid_ok_nth [OF g i] .
  show ?thesis
  proof (cases "c < length (grid ! i)")
    case True
    with ok notin have "grid ! i ! c = ''--''" by (simp add: row_ok_def)
    with True ig show ?thesis by (simp add: pad_cell)
  next
    case False
    with c ig show ?thesis by (simp add: pad_cell_beyond)
  qed
qed

lemma numbered_owned:
  assumes g: "grid_ok numCols grid colss rows" and i: "i < length rows" and j: "j < length (rows ! i)"
    and t: "desk_type (rows ! i ! j) \<noteq> ''--''" and nid: "desk_id (rows ! i ! j) \<noteq> []"
  shows "colss ! i ! j < length (pad_rows grid ! i)"
    and "numbered_grid (grid_entries 0 colss rows) nums (pad_rows grid) ! i ! (colss ! i ! j) =
           label_of nums (rows ! i ! j)"
proof -
  let ?c = "colss ! i ! j"
  have ig: "i < length grid" using grid_ok_lengths [OF g] i by simp
  have ok: "row_ok numCols (grid ! i) (colss ! i) (rows ! i)" using grid_ok_nth [OF g i] .
  then have c: "?c < length (grid ! i)" and cell: "grid ! i ! ?c = desk_type (rows ! i ! j)"
    using j by (auto simp: row_ok_def)
  have "length (grid ! i) \<le> length (pad_rows grid ! i)" by (simp add: pad_rows_nth [OF ig])
  with c show c': "?c < length (pad_rows grid ! i)" by simp
  have get: "pm_get (grid_entries 0 colss rows) (pos_key i ?c) = Some (desk_id (rows ! i ! j))"
    unfolding pm_get_iff [OF g] using i j by blast
  have "numbered_grid (grid_entries 0 colss rows) nums (pad_rows grid) ! i ! ?c =
          numbered_cell (grid_entries 0 colss rows) nums i ?c (pad_rows grid ! i ! ?c)"
    using ig c' by (simp add: numbered_grid_cell length_pad_rows)
  also have "pad_rows grid ! i ! ?c = desk_type (rows ! i ! j)"
    using cell by (simp add: pad_cell [OF ig c])
  also have "numbered_cell (grid_entries 0 colss rows) nums i ?c (desk_type (rows ! i ! j)) =
          label_of nums (rows ! i ! j)"
    using t nid get by (simp add: numbered_cell_def label_of_def split: option.splits)
  finally show "numbered_grid (grid_entries 0 colss rows) nums (pad_rows grid) ! i ! ?c =
           label_of nums (rows ! i ! j)" .
qed

lemma numbered_blank:
  assumes g: "grid_ok numCols grid colss rows" and i: "i < length rows"
    and c: "c < length (pad_rows grid ! i)" and notin: "c \<notin> set (colss ! i)"
  shows "numbered_grid (grid_entries 0 colss rows) nums (pad_rows grid) ! i ! c = ''--''"
proof -
  have ig: "i < length grid" using grid_ok_lengths [OF g] i by simp
  have "numbered_grid (grid_entries 0 colss rows) nums (pad_rows grid) ! i ! c =
          numbered_cell (grid_entries 0 colss rows) nums i c (pad_rows grid ! i ! c)"
    using ig c by (simp add: numbered_grid_cell length_pad_rows)
  then show ?thesis
    by (simp add: pad_row_cell_blank [OF g i c notin] numbered_cell_filler)
qed

lemma numbered_row_mset:
  assumes g: "grid_ok numCols grid colss rows" and i: "i < length rows"
    and t: "\<forall>d \<in> set (rows ! i). desk_type d \<noteq> ''--'' \<and> desk_id d \<noteq> [] \<and> nums (desk_id d) \<noteq> None"
  shows "mset (filter (\<lambda>cell. cell \<noteq> ''--'')
                 (numbered_grid (grid_entries 0 colss rows) nums (pad_rows grid) ! i)) =
         mset (map (label_of nums) (rows ! i))"
proof -
  let ?ng = "numbered_grid (grid_entries 0 colss rows) nums (pad_rows grid) ! i"
  have ig: "i < length grid" using grid_ok_lengths [OF g] i by simp
  have ok: "row_ok numCols (grid ! i) (colss ! i) (rows ! i)" using grid_ok_nth [OF g i] .
  then have len: "length (colss ! i) = length (rows ! i)" and dist: "distinct (colss ! i)"
    by (auto simp: row_ok_def)
  have lng: "length ?ng = length (pad_rows grid ! i)"
    using ig by (simp add: length_numbered_grid_row length_pad_rows)
  have owned: "colss ! i ! j < length ?ng \<and> ?ng ! (colss ! i ! j) = label_of nums (rows ! i ! j)"
    if "j < length (rows ! i)" for j
  proof -
    from that t have "desk_type (rows ! i ! j) \<noteq> ''--''" "desk_id (rows ! i ! j) \<noteq> []"
      by auto
    from numbered_owned [OF g i that this] show ?thesis by (simp add: lng)
  qed
  have lab: "label_of nums d \<noteq> ''--''" if "d \<in> set (rows ! i)" for d
    using that t by (auto simp: label_of_def)
  have "mset (filter (\<lambda>cell. cell \<noteq> ''--'') ?ng) = mset (map ((!) ?ng) (colss ! i))"
  proof (rule filled_cells_mset [OF dist])
    show "\<forall>c \<in> set (colss ! i). c < length ?ng \<and> ?ng ! c \<noteq> ''--''"
    proof
      fix c assume "c \<in> set (colss ! i)"
      then obtain j where j: "j < length (rows ! i)" "colss ! i ! j = c"
        using len by (auto simp: in_set_conv_nth)
      with owned [OF j(1)] lab [of "rows ! i ! j"] show "c < length ?ng \<and> ?ng ! c \<noteq> ''--''"
        by auto
    qed
    show "\<forall>c < length ?ng. c \<notin> set (colss ! i) \<longrightarrow> ?ng ! c = ''--''"
      using numbered_blank [OF g i] by (simp add: lng)
  qed
  also have "map ((!) ?ng) (colss ! i) = map (label_of nums) (rows ! i)"
    using owned len by (auto simp: list_eq_iff_nth_eq)
  finally show ?thesis .
qed

lemma max_len_ge: "i < length grid \<Longrightarrow> length (grid ! i) \<le> max_len grid"
  using fold_max_ge_row [of "grid ! i" grid 0] by (simp add: max_len_def)

lemma numbered_read:
  assumes ne: "objs \<noteq> []" and t: "\<forall>d \<in> set objs. desk_type d \<noteq> ''--''"
  obtains numCols grid colss where
    "grid_ok numCols grid colss (group_rows objs)"
    "layout (convertObjectsToLayoutMatrix objs) = pad_rows grid"
    "positionMap (convertObjectsToLayoutMatrix objs) = grid_entries 0 colss (group_rows objs)"
    "read_matrix (numberedMatrix (convertObjectsToLayoutMatrix objs)) =
       numbered_grid (grid_entries 0 colss (group_rows objs)) (deskNumberMap objs) (pad_rows grid)"
proof -
  let ?rows = "group_rows objs"
  from convert_nonempty [OF ne t] obtain numCols grid colss where
      g: "grid_ok numCols grid colss ?rows" and pos: "0 < numCols"
      and lay: "layout (convertObjectsToLayoutMatrix objs) = pad_rows grid"
      and pm: "positionMap (convertObjectsToLayoutMatrix objs) = grid_entries 0 colss ?rows"
      and nm: "numberedMatrix (convertObjectsToLayoutMatrix objs) =
         join [CHR 0x0A] (map (\<lambda>row. join '','' (map (padEnd 5) row))
           (numbered_grid (grid_entries 0 colss ?rows) (deskNumberMap objs) (pad_rows grid)))"
    by blast
  let ?ng = "numbered_grid (grid_entries 0 colss ?rows) (deskNumberMap objs) (pad_rows grid)"
  have len: "length grid = length ?rows" using grid_ok_lengths [OF g] by simp
  have rows_ne: "?rows \<noteq> []" using group_rows_not_Nil [OF ne] .
  have ng_len: "length ?ng = length grid" by (simp add: length_numbered_grid length_pad_rows)
  have ng_ne: "?ng \<noteq> []" using ng_len len rows_ne by auto
  have cells: "\<forall>row \<in> set ?ng. row \<noteq> [] \<and> (\<forall>cell \<in> set row. plain_cell cell)"
  proof
    fix row assume "row \<in> set ?ng"
    then obtain i where i: "i < length grid" and row: "row = ?ng ! i"
      using ng_len by (auto simp: in_set_conv_nth)
    have ir: "i < length ?rows" using i len by simp
    have "numCols \<le> length (grid ! i)"
      using grid_ok_nth [OF g ir] by (simp add: row_ok_def)
    also have "\<dots> \<le> max_len grid" by (rule max_len_ge [OF i])
    finally have "0 < length (pad_rows grid ! i)"
      using pos i by (simp add: length_pad_rows_nth)
    then have "row \<noteq> []"
      using i row by (auto simp: length_numbered_grid_row length_pad_rows simp flip: length_greater_0_conv)
    moreover have "\<forall>cell \<in> set row. plain_cell cell"
      using i row by (auto simp: numbered_grid_row length_pad_rows numbered_cell_plain)
    ultimately show "row \<noteq> [] \<and> (\<forall>cell \<in> set row. plain_cell cell)" by simp
  qed
  have "read_matrix (numberedMatrix (convertObjectsToLayoutMatrix objs)) = ?ng"
    unfolding nm by (rule read_matrix_join(2) [OF cells ng_ne])
  with g lay pm show ?thesis by (rule that)
qed

lemma rows_position:
  assumes "d \<in> set objs"
  obtains i j where "i < length (group_rows objs)" "j < length (group_rows objs ! i)"
    "group_rows objs ! i ! j = d"
proof -
  from assms have "d \<in> set (concat (group_rows objs))" by (simp only: set_concat_group_rows)
  then show ?thesis using that by (auto simp: in_set_conv_nth)
qed

lemma uiSorted_position:
  assumes "d \<in> set objs"
  obtains k where "k < length objs" "uiSortedObjects objs ! k = d"
proof -
  from assms have "d \<in> set (uiSortedObjects objs)" by (simp add: uiSortedObjects_def set_js_sort)
  then obtain k where "k < length (uiSortedObjects objs)" "uiSortedObjects objs ! k = d"
    by (auto simp: in_set_conv_nth)
  then show ?thesis using that by (simp add: uiSortedObjects_def length_js_sort)
qed

lemma label_of_sorted:
  assumes "distinct (map desk_id objs)" and "k < length objs"
  shows "label_of (deskNumberMap objs) (uiSortedObjects objs ! k) = ''L'' @ show_nat (k + 1)"
  by (simp add: label_of_def deskNumberMap_nth [OF assms])

lemma all_labels:
  assumes ne: "objs \<noteq> []" and ids: "distinct (map desk_id objs)"
    and nid: "\<forall>d \<in> set objs. desk_id d \<noteq> []"
    and t: "\<forall>d \<in> set objs. desk_type d \<noteq> ''--''"
  shows "mset (labels (convertObjectsToLayoutMatrix objs)) =
         mset (map (\<lambda>k. ''L'' @ show_nat k) [1..<length objs + 1])"
proof -
  let ?rows = "group_rows objs" and ?nums = "deskNumberMap objs" and ?s = "uiSortedObjects objs"
  from numbered_read [OF ne t] obtain numCols grid colss where
      g: "grid_ok numCols grid colss ?rows"
      and rd: "read_matrix (numberedMatrix (convertObjectsToLayoutMatrix objs)) =
         numbered_grid (grid_entries 0 colss ?rows) ?nums (pad_rows grid)"
    by blast
  let ?ng = "numbered_grid (grid_entries 0 colss ?rows) ?nums (pad_rows grid)"
  have len: "length ?ng = length ?rows"
    using grid_ok_lengths [OF g] by (simp add: length_numbered_grid length_pad_rows)
  have numbered: "?nums (desk_id d) \<noteq> None" if "d \<in> set objs" for d
  proof -
    from uiSorted_position [OF that] obtain k where "k < length objs" "?s ! k = d" by blast
    with deskNumberMap_nth [OF ids this(1)] show ?thesis by simp
  qed
  have rows: "\<forall>i < length ?rows. mset (filter (\<lambda>cell. cell \<noteq> ''--'') (?ng ! i)) =
      mset (map (label_of ?nums) (?rows ! i))"
  proof (intro allI impI)
    fix i assume i: "i < length ?rows"
    have "\<forall>d \<in> set (?rows ! i). desk_type d \<noteq> ''--'' \<and> desk_id d \<noteq> [] \<and> ?nums (desk_id d) \<noteq> None"
    proof
      fix d assume "d \<in> set (?rows ! i)"
      with i have "d \<in> set (concat ?rows)" by auto
      then have "d \<in> set objs" by (simp only: set_concat_group_rows)
      with t nid numbered show "desk_type d \<noteq> ''--'' \<and> desk_id d \<noteq> [] \<and> ?nums (desk_id d) \<noteq> None"
        by simp
    qed
    from numbered_row_mset [OF g i this]
    show "mset (filter (\<lambda>cell. cell \<noteq> ''--'') (?ng ! i)) = mset (map (label_of ?nums) (?rows ! i))" .
  qed
  have "mset (labels (convertObjectsToLayoutMatrix objs)) =
          mset (map (label_of ?nums) (concat ?rows))"
    unfolding labels_def rd by (rule concat_rows_mset [OF len rows])
  also have "\<dots> = image_mset (label_of ?nums) (mset (concat ?rows))" by simp
  also have "\<dots> = image_mset (label_of ?nums) (mset ?s)"
    by (simp only: mset_group_rows uiSortedObjects_def mset_js_sort)
  also have "\<dots> = mset (map (label_of ?nums) ?s)" by simp
  also have "map (label_of ?nums) ?s = map (\<lambda>k. ''L'' @ show_nat k) [1..<length objs + 1]"
  proof (rule nth_equalityI)
    show "length (map (label_of ?nums) ?s) = length (map (\<lambda>k. ''L'' @ show_nat k) [1..<length objs + 1])"
      by (simp add: uiSortedObjects_def length_js_sort del: upt_Suc)
  next
    fix k assume "k < length (map (label_of ?nums) ?s)"
    then have k: "k < length objs" by (simp add: uiSortedObjects_def length_js_sort)
    then have ks: "k < length ?s" by (simp add: uiSortedObjects_def length_js_sort)
    have "[1..<length objs + 1] ! k = 1 + k" using k by (simp del: upt_Suc)
    then show "map (label_of ?nums) ?s ! k = map (\<lambda>k. ''L'' @ show_nat k) [1..<length objs + 1] ! k"
      using k ks label_of_sorted [OF ids k] by (simp del: upt_Suc)
  qed
  finally show ?thesis .
qed

lemma label_follows_sort:
  assumes ne: "objs \<noteq> []" and ids: "distinct (map desk_id objs)"
    and nid: "\<forall>d \<in> set objs. desk_id d \<noteq> []"
    and t: "\<forall>d \<in> set objs. desk_type d \<noteq> ''--''"
    and k: "k < length objs"
  shows "has_label (convertObjectsToLayoutMatrix objs) (uiSortedObjects objs ! k) (k + 1)"
proof -
  let ?rows = "group_rows objs" and ?nums = "deskNumberMap objs" and ?d = "uiSortedObjects objs ! k"
  from numbered_read [OF ne t] obtain numCols grid colss where
      g: "grid_ok numCols grid colss ?rows"
      and pm: "positionMap (convertObjectsToLayoutMatrix objs) = grid_entries 0 colss ?rows"
      and rd: "read_matrix (numberedMatrix (convertObjectsToLayoutMatrix objs)) =
         numbered_grid (grid_entries 0 colss ?rows) ?nums (pad_rows grid)"
    by blast
  let ?ng = "numbered_grid (grid_entries 0 colss ?rows) ?nums (pad_rows grid)"
  have "?d \<in> set (uiSortedObjects objs)"
    using k by (simp add: uiSortedObjects_def length_js_sort)
  then have d: "?d \<in> set objs" by (simp add: uiSortedObjects_def set_js_sort)
  from rows_position [OF d] obtain i j where ij: "i < length ?rows" "j < length (?rows ! i)"
      "?rows ! i ! j = ?d" by blast
  have ig: "i < length grid" using grid_ok_lengths [OF g] ij(1) by simp
  from d t nid ij(3) have "desk_type (?rows ! i ! j) \<noteq> ''--''" "desk_id (?rows ! i ! j) \<noteq> []"
    by simp_all
  note own = numbered_owned(1) [OF g ij(1,2) this] numbered_owned(2) [OF g ij(1,2) this, where nums = ?nums]
  have r: "i < length ?ng" using ig by (simp add: length_numbered_grid length_pad_rows)
  have c: "colss ! i ! j < length (?ng ! i)"
    using own(1) ig by (simp add: length_numbered_grid_row length_pad_rows)
  have "j < length (?rows ! i) \<and> pos_key i (colss ! i ! j) = pos_key i (colss ! i ! j) \<and>
          desk_id ?d = desk_id (?rows ! i ! j)"
    using ij by simp
  then have "\<exists>j' < length (?rows ! i). pos_key i (colss ! i ! j) = pos_key i (colss ! i ! j') \<and>
          desk_id ?d = desk_id (?rows ! i ! j')"
    by (rule exI [of _ j])
  with ij(1) have "i < length ?rows \<and> (\<exists>j' < length (?rows ! i).
          pos_key i (colss ! i ! j) = pos_key i (colss ! i ! j') \<and>
          desk_id ?d = desk_id (?rows ! i ! j'))"
    by (rule conjI)
  then have "\<exists>i' < length ?rows. \<exists>j' < length (?rows ! i').
          pos_key i (colss ! i ! j) = pos_key i' (colss ! i' ! j') \<and>
          desk_id ?d = desk_id (?rows ! i' ! j')"
    by (rule exI [of _ i])
  then have get: "pm_get (grid_entries 0 colss ?rows) (pos_key i (colss ! i ! j)) = Some (desk_id ?d)"
    unfolding pm_get_iff [OF g] .
  have cell: "?ng ! i ! (colss ! i ! j) = ''L'' @ show_nat (k + 1)"
    using own(2) ij(3) label_of_sorted [OF ids k] by simp
  have "\<exists>c < length (?ng ! i).
          pm_get (grid_entries 0 colss ?rows) (pos_key i c) = Some (desk_id ?d) \<and>
          ?ng ! i ! c = ''L'' @ show_nat (k + 1)"
    using c get cell by (intro exI [of _ "colss ! i ! j"]) simp
  with r have "\<exists>r < length ?ng. \<exists>c < length (?ng ! r).
          pm_get (grid_entries 0 colss ?rows) (pos_key r c) = Some (desk_id ?d) \<and>
          ?ng ! r ! c = ''L'' @ show_nat (k + 1)"
    by (intro exI [of _ i]) simp
  then show ?thesis
    unfolding has_label_def pm rd .
qed

lemma label_unique:
  assumes ne: "objs \<noteq> []" and ids: "distinct (map desk_id objs)"
    and t: "\<forall>d \<in> set objs. desk_type d \<noteq> ''--''"
    and a: "has_label (convertObjectsToLayoutMatrix objs) d m"
    and b: "has_label (convertObjectsToLayoutMatrix objs) d n"
  shows "m = n"
proof -
  let ?rows = "group_rows objs"
  from numbered_read [OF ne t] obtain numCols grid colss where
      g: "grid_ok numCols grid colss ?rows"
      and pm: "positionMap (convertObjectsToLayoutMatrix objs) = grid_entries 0 colss ?rows"
    by blast
  let ?rm = "read_matrix (numberedMatrix (convertObjectsToLayoutMatrix objs))"
  from a obtain r c where 1: "pm_get (grid_entries 0 colss ?rows) (pos_key r c) = Some (desk_id d)"
      "?rm ! r ! c = ''L'' @ show_nat m"
    unfolding has_label_def pm by blast
  from b obtain r' c' where 2: "pm_get (grid_entries 0 colss ?rows) (pos_key r' c') = Some (desk_id d)"
      "?rm ! r' ! c' = ''L'' @ show_nat n"
    unfolding has_label_def pm by blast
  from pm_get_unique_key [OF g distinct_ids_rows [OF ids] 1(1) 2(1)]
  have "r = r' \<and> c = c'" by (simp add: pos_key_inj)
  with 1(2) 2(2) have "show_nat m = show_nat n" by simp
  then show ?thesis by (rule show_nat_inj)
qed

lemma sorted_uiSorted:
  assumes "rows_consistent objs"
  shows "sorted_wrt (\<lambda>a b. ui_cmp a b \<le> 0) (uiSortedObjects objs)"
  unfolding uiSortedObjects_def
proof (rule sorted_js_sort)
  fix a b show "ui_cmp a b \<le> 0 \<or> ui_cmp b a \<le> 0" by (rule ui_cmp_total)
next
  fix a b c assume in_objs: "a \<in> set objs" "b \<in> set objs" "c \<in> set objs"
    and le: "ui_cmp a b \<le> 0" "ui_cmp b c \<le> 0"
  from assms in_objs have "near a b \<and> near b c \<longrightarrow> near a c"
    and "near b a \<and> near a c \<longrightarrow> near b c"
    and "near a c \<and> near c b \<longrightarrow> near a b"
    unfolding rows_consistent_def by blast+
  with le show "ui_cmp a c \<le> 0" by (rule ui_cmp_trans)
qed

lemma not_before_self: "\<not> comes_before a a"
  by (simp add: comes_before_def near_def DESK_HEIGHT_UNITS_def)

lemma before_order:
  assumes s: "sorted_wrt (\<lambda>a b. ui_cmp a b \<le> 0) xs"
    and i: "i < length xs" and j: "j < length xs"
    and b: "comes_before (xs ! i) (xs ! j)"
  shows "i < j"
proof (rule ccontr)
  assume "\<not> i < j"
  then consider "i = j" | "j < i" by linarith
  then show False
  proof cases
    case 1
    with b not_before_self show False by simp
  next
    case 2
    from sorted_wrt_nth_less [OF s 2 i] have "ui_cmp (xs ! j) (xs ! i) \<le> 0" .
    then have "\<not> ui_cmp (xs ! i) (xs ! j) < 0"
      using ui_cmp_flip [of "xs ! j" "xs ! i"] by linarith
    with b show False by (simp add: ui_cmp_before)
  qed
qed

lemma every_desk_labelled:
  assumes ne: "objs \<noteq> []" and ids: "distinct (map desk_id objs)"
    and nid: "\<forall>d \<in> set objs. desk_id d \<noteq> []"
    and t: "\<forall>d \<in> set objs. desk_type d \<noteq> ''--''"
    and d: "d \<in> set objs"
  shows "\<exists>k. 1 \<le> k \<and> k \<le> length objs \<and> has_label (convertObjectsToLayoutMatrix objs) d k \<and>
             (\<forall>k'. has_label (convertObjectsToLayoutMatrix objs) d k' \<longrightarrow> k' = k)"
proof -
  from uiSorted_position [OF d] obtain i where i: "i < length objs" "uiSortedObjects objs ! i = d"
    by blast
  have l: "has_label (convertObjectsToLayoutMatrix objs) d (i + 1)"
    using label_follows_sort [OF ne ids nid t i(1)] i(2) by simp
  have u: "\<forall>k'. has_label (convertObjectsToLayoutMatrix objs) d k' \<longrightarrow> k' = i + 1"
  proof (intro allI impI)
    fix k' assume "has_label (convertObjectsToLayoutMatrix objs) d k'"
    then show "k' = i + 1" using l by (rule label_unique [OF ne ids t])
  qed
  have "1 \<le> i + 1" "i + 1 \<le> length objs" using i(1) by simp_all
  with l u show ?thesis by blast
qed

text \<open>
  C4 (the claim as stated fails).  Three single desks on a staircase, listed as \<open>p, r, q\<close>:
  each desk is within the tolerance of the next one and left of it, so the list is in
  the order of the comparator pair by pair and is numbered as it stands.  Desk \<open>q\<close> is a
  whole desk height nearer the front than \<open>p\<close>, more than the tolerance, and yet \<open>p\<close> gets
  L1 and \<open>q\<close> gets L3.
\<close>

lemma staircase_prq_sorted: "uiSortedObjects staircase_prq = staircase_prq"
  by code_simp

theorem C4_numbering_against_visual_order:
  "has_label (convertObjectsToLayoutMatrix staircase_prq) (desk_at ''p'' ''1'' 0 0 4 4) 1 \<and>
   has_label (convertObjectsToLayoutMatrix staircase_prq) (desk_at ''r'' ''1'' 5 2 4 4) 2 \<and>
   has_label (convertObjectsToLayoutMatrix staircase_prq) (desk_at ''q'' ''1'' 10 4 4 4) 3 \<and>
   \<not> near (desk_at ''q'' ''1'' 10 4 4 4) (desk_at ''p'' ''1'' 0 0 4 4) \<and>
   comes_before (desk_at ''q'' ''1'' 10 4 4 4) (desk_at ''p'' ''1'' 0 0 4 4)"
proof -
  have 1: "staircase_prq \<noteq> []" "distinct (map desk_id staircase_prq)"
      "\<forall>d \<in> set staircase_prq. desk_id d \<noteq> []" "\<forall>d \<in> set staircase_prq. desk_type d \<noteq> ''--''"
    by (simp_all add: staircase_prq_def desk_at_def)
  have l1: "length staircase_prq = 3" by (simp add: staircase_prq_def)
  have "has_label (convertObjectsToLayoutMatrix staircase_prq) (uiSortedObjects staircase_prq ! 0) (0 + 1)"
    by (rule label_follows_sort [OF 1]) (simp add: l1)
  then have a: "has_label (convertObjectsToLayoutMatrix staircase_prq) (desk_at ''p'' ''1'' 0 0 4 4) 1"
    unfolding staircase_prq_sorted by (simp add: staircase_prq_def)
  have "has_label (convertObjectsToLayoutMatrix staircase_prq) (uiSortedObjects staircase_prq ! 1) (1 + 1)"
    by (rule label_follows_sort [OF 1]) (simp add: l1)
  then have b: "has_label (convertObjectsToLayoutMatrix staircase_prq) (desk_at ''r'' ''1'' 5 2 4 4) 2"
    unfolding staircase_prq_sorted by (simp add: staircase_prq_def numeral_2_eq_2)
  have "has_label (convertObjectsToLayoutMatrix staircase_prq) (uiSortedObjects staircase_prq ! 2) (2 + 1)"
    by (rule label_follows_sort [OF 1]) (simp add: l1)
  then have c: "has_label (convertObjectsToLayoutMatrix staircase_prq) (desk_at ''q'' ''1'' 10 4 4 4) 3"
    unfolding staircase_prq_sorted by (simp add: staircase_prq_def numeral_3_eq_3)
  have "\<not> near (desk_at ''q'' ''1'' 10 4 4 4) (desk_at ''p'' ''1'' 0 0 4 4)"
    and "comes_before (desk_at ''q'' ''1'' 10 4 4 4) (desk_at ''p'' ''1'' 0 0 4 4)"
    by (simp_all add: comes_before_def near_def desk_at_def DESK_HEIGHT_UNITS_def)
  with a b c show ?thesis by simp
qed

text \<open>
  C4 (amended).  For a non-empty list of desks with distinct, non-empty ids and type codes
  other than the filler: the labels in the text of the numbered matrix are L1 to Ln, each
  exactly once, and every desk has exactly one of them in its cell.  When being in the
  same row (within the tolerance) is transitive on the desks, a desk that comes before
  another one in the visual order (nearer the front, or further left in the same row)
  has the smaller number.
\<close>

theorem C4_labels_once_and_in_visual_order:
  assumes ne: "objs \<noteq> []" and ids: "distinct (map desk_id objs)"
    and nid: "\<forall>d \<in> set objs. desk_id d \<noteq> []"
    and t: "\<forall>d \<in> set objs. desk_type d \<noteq> ''--''"
  shows "mset (labels (convertObjectsToLayoutMatrix objs)) =
           mset (map (\<lambda>k. ''L'' @ show_nat k) [1..<length objs + 1]) \<and>
         (\<forall>d \<in> set objs.
            \<exists>k. 1 \<le> k \<and> k \<le> length objs \<and> has_label (convertObjectsToLayoutMatrix objs) d k \<and>
                (\<forall>k'. has_label (convertObjectsToLayoutMatrix objs) d k' \<longrightarrow> k' = k)) \<and>
         (rows_consistent objs \<longrightarrow>
            (\<forall>a \<in> set objs. \<forall>b \<in> set objs. \<forall>m n.
               has_label (convertObjectsToLayoutMatrix objs) a m \<and>
               has_label (convertObjectsToLayoutMatrix objs) b n \<and>
               comes_before a b \<longrightarrow> m < n))"
proof (intro conjI allI impI ballI)
  show "mset (labels (convertObjectsToLayoutMatrix objs)) =
          mset (map (\<lambda>k. ''L'' @ show_nat k) [1..<length objs + 1])"
    by (rule all_labels [OF ne ids nid t])
next
  fix d assume "d \<in> set objs"
  then show "\<exists>k. 1 \<le> k \<and> k \<le> length objs \<and> has_label (convertObjectsToLayoutMatrix objs) d k \<and>
                (\<forall>k'. has_label (convertObjectsToLayoutMatrix objs) d k' \<longrightarrow> k' = k)"
    by (rule every_desk_labelled [OF ne ids nid t])
next
  fix a b m n
  assume cons: "rows_consistent objs" and a: "a \<in> set objs" and b: "b \<in> set objs"
    and h: "has_label (convertObjectsToLayoutMatrix objs) a m \<and>
            has_label (convertObjectsToLayoutMatrix objs) b n \<and> comes_before a b"
  let ?s = "uiSortedObjects objs"
  from uiSorted_position [OF a] obtain i where i: "i < length objs" "?s ! i = a" by blast
  from uiSorted_position [OF b] obtain j where j: "j < length objs" "?s ! j = b" by blast
  have len: "length ?s = length objs" by (simp add: uiSortedObjects_def length_js_sort)
  have "has_label (convertObjectsToLayoutMatrix objs) a (i + 1)"
    using label_follows_sort [OF ne ids nid t i(1)] i(2) by simp
  with h have m: "m = i + 1" using label_unique [OF ne ids t] by blast
  have "has_label (convertObjectsToLayoutMatrix objs) b (j + 1)"
    using label_follows_sort [OF ne ids nid t j(1)] j(2) by simp
  with h have n: "n = j + 1" using label_unique [OF ne ids t] by blast
  have "comes_before (?s ! i) (?s ! j)" using h i(2) j(2) by simp
  from before_order [OF sorted_uiSorted [OF cons] _ _ this] i(1) j(1) len
  have "i < j" by simp
  with m n show "m < n" by simp
qed

lemma single_behind_triple_consistent: "rows_consistent single_behind_triple"
  by (simp add: rows_consistent_def single_behind_triple_def near_def desk_at_def
      DESK_HEIGHT_UNITS_def)

theorem C4_labels_once_and_in_visual_order_witness:
  "mset (labels (convertObjectsToLayoutMatrix single_behind_triple)) = mset [''L1'', ''L2''] \<and>
   has_label (convertObjectsToLayoutMatrix single_behind_triple) (desk_at ''b'' ''111'' 0 6 12 4) 1 \<and>
   has_label (convertObjectsToLayoutMatrix single_behind_triple) (desk_at ''a'' ''1'' 4 0 4 4) 2"
proof -
  let ?conv = "convertObjectsToLayoutMatrix single_behind_triple"
  let ?a = "desk_at ''a'' ''1'' 4 0 4 4" and ?b = "desk_at ''b'' ''111'' 0 6 12 4"
  have h: "single_behind_triple \<noteq> []" "distinct (map desk_id single_behind_triple)"
      "\<forall>d \<in> set single_behind_triple. desk_id d \<noteq> []"
      "\<forall>d \<in> set single_behind_triple. desk_type d \<noteq> ''--''"
    by (simp_all add: single_behind_triple_def desk_at_def)
  have len: "length single_behind_triple = 2" by (simp add: single_behind_triple_def)
  have mem: "?a \<in> set single_behind_triple" "?b \<in> set single_behind_triple"
    by (simp_all add: single_behind_triple_def)
  have ls: "map (\<lambda>k. ''L'' @ show_nat k) [1..<length single_behind_triple + 1] = [''L1'', ''L2'']"
    by code_simp
  have front: "comes_before ?b ?a"
    by (simp add: comes_before_def near_def desk_at_def DESK_HEIGHT_UNITS_def)
  note main = C4_labels_once_and_in_visual_order [OF h]
  from main have "mset (labels ?conv) =
      mset (map (\<lambda>k. ''L'' @ show_nat k) [1..<length single_behind_triple + 1])"
    by (rule conjunct1)
  then have one: "mset (labels ?conv) = mset [''L1'', ''L2'']"
    by (simp only: ls)
  from main have each: "\<forall>d \<in> set single_behind_triple.
      \<exists>k. 1 \<le> k \<and> k \<le> length single_behind_triple \<and> has_label ?conv d k \<and>
          (\<forall>k'. has_label ?conv d k' \<longrightarrow> k' = k)"
    by (rule conjunct1 [OF conjunct2])
  from main have "rows_consistent single_behind_triple \<longrightarrow>
      (\<forall>a \<in> set single_behind_triple. \<forall>b \<in> set single_behind_triple. \<forall>m n.
         has_label ?conv a m \<and> has_label ?conv b n \<and> comes_before a b \<longrightarrow> m < n)"
    by (rule conjunct2 [OF conjunct2])
  then have order:
    "\<forall>a \<in> set single_behind_triple. \<forall>b \<in> set single_behind_triple. \<forall>m n.
       has_label ?conv a m \<and> has_label ?conv b n \<and> comes_before a b \<longrightarrow> m < n"
    using single_behind_triple_consistent by (rule mp)
  from each mem(1) len obtain ka where ka: "1 \<le> ka" "ka \<le> 2" "has_label ?conv ?a ka" by auto
  from each mem(2) len obtain kb where kb: "1 \<le> kb" "kb \<le> 2" "has_label ?conv ?b kb" by auto
  from order mem ka(3) kb(3) front have "kb < ka" by blast
  with ka kb have "kb = 1" "ka = 2" by simp_all
  with ka(3) kb(3) one show ?thesis by simp
qed

section \<open>The order of the rows\<close>

lemma same_row_refl: "same_row a a"
  by (simp add: same_row_def DESK_HEIGHT_UNITS_def)

lemma same_row_sym: "same_row a b \<longleftrightarrow> same_row b a"
  by (simp add: same_row_def abs_minus_commute)

lemma row_loop_Cons:
  "row_loop rows first pushed (d # rest) =
     (if same_row d first then row_loop rows first (pushed @ [d]) rest
      else row_loop (rows @ [js_sort x_cmp (first # pushed)]) d [] rest)"
  by (simp add: same_row_def)

lemma row_loop_prefix: "row_loop rows first pushed rest = rows @ row_loop [] first pushed rest"
proof (induction rest arbitrary: rows first pushed)
  case Nil
  show ?case by simp
next
  case (Cons d rest)
  show ?case
  proof (cases "same_row d first")
    case True
    then have "row_loop rows first pushed (d # rest) = row_loop rows first (pushed @ [d]) rest"
      by (simp only: row_loop_Cons if_True)
    also have "\<dots> = rows @ row_loop [] first (pushed @ [d]) rest" by (rule Cons.IH)
    also have "row_loop [] first (pushed @ [d]) rest = row_loop [] first pushed (d # rest)"
      using True by (simp only: row_loop_Cons if_True)
    finally show ?thesis .
  next
    case False
    let ?r = "js_sort x_cmp (first # pushed)"
    from False have "row_loop rows first pushed (d # rest) = row_loop (rows @ [?r]) d [] rest"
      by (simp only: row_loop_Cons if_False)
    also have "\<dots> = (rows @ [?r]) @ row_loop [] d [] rest" by (rule Cons.IH)
    also have "\<dots> = rows @ ([] @ [?r]) @ row_loop [] d [] rest" by simp
    also have "([] @ [?r]) @ row_loop [] d [] rest = row_loop ([] @ [?r]) d [] rest"
      by (rule Cons.IH [symmetric])
    also have "row_loop ([] @ [?r]) d [] rest = row_loop [] first pushed (d # rest)"
      using False by (simp only: row_loop_Cons if_False)
    finally show ?thesis .
  qed
qed

lemma row_loop_all:
  "\<forall>d \<in> set rest. same_row d first \<Longrightarrow>
   row_loop rows first pushed rest = rows @ [js_sort x_cmp (first # pushed @ rest)]"
proof (induction rest arbitrary: pushed)
  case Nil
  show ?case by simp
next
  case (Cons d rest)
  from Cons.prems have d: "same_row d first" and r: "\<forall>d \<in> set rest. same_row d first" by simp_all
  from d have "row_loop rows first pushed (d # rest) = row_loop rows first (pushed @ [d]) rest"
    by (simp only: row_loop_Cons if_True)
  also have "\<dots> = rows @ [js_sort x_cmp (first # (pushed @ [d]) @ rest)]" by (rule Cons.IH [OF r])
  finally show ?case by simp
qed

lemma row_loop_first_row:
  "\<exists>further. row_loop rows first pushed rest =
      rows @ js_sort x_cmp (first # pushed @ takeWhile (\<lambda>d. same_row d first) rest) # further"
proof (induction rest arbitrary: pushed)
  case Nil
  show ?case by simp
next
  case (Cons d rest)
  show ?case
  proof (cases "same_row d first")
    case True
    from Cons.IH [of "pushed @ [d]"] obtain further where
      "row_loop rows first (pushed @ [d]) rest =
         rows @ js_sort x_cmp (first # (pushed @ [d]) @ takeWhile (\<lambda>d. same_row d first) rest) # further"
      by blast
    with True have "row_loop rows first pushed (d # rest) =
        rows @ js_sort x_cmp (first # pushed @ takeWhile (\<lambda>d. same_row d first) (d # rest)) # further"
      by (simp add: row_loop_Cons del: row_loop.simps)
    then show ?thesis by (rule exI)
  next
    case False
    let ?r = "js_sort x_cmp (first # pushed)"
    from False have "row_loop rows first pushed (d # rest) = row_loop (rows @ [?r]) d [] rest"
      by (simp only: row_loop_Cons if_False)
    also have "\<dots> = (rows @ [?r]) @ row_loop [] d [] rest" by (rule row_loop_prefix)
    finally have "row_loop rows first pushed (d # rest) =
        rows @ js_sort x_cmp (first # pushed @ takeWhile (\<lambda>d. same_row d first) (d # rest)) #
          row_loop [] d [] rest"
      using False by simp
    then show ?thesis by (rule exI)
  qed
qed

lemma row_loop_last_row:
  assumes "\<forall>x \<in> set (first # xs). \<not> same_row f0 x" and "\<forall>f \<in> set fs. same_row f f0"
  shows "\<exists>rs. row_loop rows first pushed (xs @ f0 # fs) = rs @ [js_sort x_cmp (f0 # fs)] \<and>
              length rows < length rs"
  using assms(1)
proof (induction xs arbitrary: rows first pushed)
  case Nil
  let ?r = "js_sort x_cmp (first # pushed)"
  from Nil have "\<not> same_row f0 first" by simp
  then have "row_loop rows first pushed ([] @ f0 # fs) = row_loop (rows @ [?r]) f0 [] fs"
    by (simp only: row_loop_Cons if_False append_Nil)
  also have "\<dots> = (rows @ [?r]) @ [js_sort x_cmp (f0 # [] @ fs)]"
    by (rule row_loop_all [OF assms(2)])
  finally have "row_loop rows first pushed ([] @ f0 # fs) = (rows @ [?r]) @ [js_sort x_cmp (f0 # fs)]"
    by simp
  moreover have "length rows < length (rows @ [?r])" by simp
  ultimately show ?case by blast
next
  case (Cons x xs)
  let ?r = "js_sort x_cmp (first # pushed)"
  from Cons.prems have a: "\<forall>x \<in> set (first # xs). \<not> same_row f0 x"
    and b: "\<forall>y \<in> set (x # xs). \<not> same_row f0 y" by simp_all
  show ?case
  proof (cases "same_row x first")
    case True
    from Cons.IH [OF a, of rows "pushed @ [x]"] obtain rs where
      "row_loop rows first (pushed @ [x]) (xs @ f0 # fs) = rs @ [js_sort x_cmp (f0 # fs)]"
      "length rows < length rs" by blast
    with True have "row_loop rows first pushed ((x # xs) @ f0 # fs) = rs @ [js_sort x_cmp (f0 # fs)] \<and>
        length rows < length rs"
      by (simp add: row_loop_Cons del: row_loop.simps)
    then show ?thesis by (rule exI)
  next
    case False
    from Cons.IH [OF b, of "rows @ [?r]" "[]"] obtain rs where
      "row_loop (rows @ [?r]) x [] (xs @ f0 # fs) = rs @ [js_sort x_cmp (f0 # fs)]"
      "length (rows @ [?r]) < length rs" by blast
    with False have "row_loop rows first pushed ((x # xs) @ f0 # fs) = rs @ [js_sort x_cmp (f0 # fs)] \<and>
        length rows < length rs"
      by (simp add: row_loop_Cons del: row_loop.simps)
    then show ?thesis by (rule exI)
  qed
qed

lemma takeWhile_filter:
  "sorted_wrt (\<lambda>a b. P b \<longrightarrow> P a) xs \<Longrightarrow> takeWhile P xs = filter P xs"
proof (induction xs)
  case Nil
  show ?case by simp
next
  case (Cons a xs)
  show ?case
  proof (cases "P a")
    case True
    with Cons show ?thesis by simp
  next
    case False
    with Cons.prems have "\<forall>b \<in> set xs. \<not> P b" by auto
    then have "filter P xs = []" by (simp add: filter_empty_conv)
    with False show ?thesis by simp
  qed
qed

lemma dropWhile_filter:
  "sorted_wrt (\<lambda>a b. P b \<longrightarrow> P a) xs \<Longrightarrow> dropWhile P xs = filter (\<lambda>x. \<not> P x) xs"
proof (induction xs)
  case Nil
  show ?case by simp
next
  case (Cons a xs)
  show ?case
  proof (cases "P a")
    case True
    with Cons show ?thesis by simp
  next
    case False
    with Cons.prems have "\<forall>b \<in> set xs. \<not> P b" by auto
    then have "filter (\<lambda>x. \<not> P x) xs = xs" by (simp add: filter_id_conv)
    with False show ?thesis by simp
  qed
qed

lemma split_by_filter:
  "sorted_wrt (\<lambda>a b. P b \<longrightarrow> P a) xs \<Longrightarrow> xs = filter P xs @ filter (\<lambda>x. \<not> P x) xs"
  using takeWhile_dropWhile_id [of P xs] by (simp add: takeWhile_filter dropWhile_filter)

lemma sorted_by_y: "sorted_wrt (\<lambda>a b. desk_y a \<le> desk_y b) (js_sort y_cmp objs)"
proof -
  have eq: "y_cmp = (\<lambda>a b. desk_y a - desk_y b)" by (intro ext) (simp add: y_cmp_def)
  have "js_sort y_cmp objs = sort_key desk_y objs" unfolding eq by (rule js_sort_key)
  moreover have "sorted (map desk_y (sort_key desk_y objs))" by simp
  ultimately show ?thesis by (simp add: sorted_map)
qed

lemma filter_mset_part:
  assumes "\<forall>d \<in> set other. d \<notin> set part"
  shows "filter_mset (\<lambda>d. d \<in> set part) (mset part + mset other) = mset part"
    and "filter_mset (\<lambda>d. d \<in> set part) (mset other + mset part) = mset part"
proof -
  have a: "filter_mset (\<lambda>d. d \<in> set part) (mset part) = mset part"
    by (simp add: filter_mset_eq_conv)
  have b: "filter_mset (\<lambda>d. d \<in> set part) (mset other) = {#}"
    using assms by (simp add: filter_mset_eq_mempty_iff)
  show "filter_mset (\<lambda>d. d \<in> set part) (mset part + mset other) = mset part"
    and "filter_mset (\<lambda>d. d \<in> set part) (mset other + mset part) = mset part"
    using a b by simp_all
qed

lemma group_rows_back_front:
  assumes parts: "mset objs = mset back + mset middle + mset front"
    and ne: "back \<noteq> []" "front \<noteq> []"
    and b_row: "\<forall>a \<in> set back. \<forall>b \<in> set back. same_row a b"
    and f_row: "\<forall>a \<in> set front. \<forall>b \<in> set front. same_row a b"
    and b_back: "\<forall>b \<in> set back. \<forall>d \<in> set (middle @ front). desk_y b < desk_y d \<and> \<not> same_row b d"
    and f_front: "\<forall>f \<in> set front. \<forall>d \<in> set (back @ middle). desk_y d < desk_y f \<and> \<not> same_row d f"
  shows "\<exists>B F. mset B = mset back \<and> mset F = mset front \<and>
               hd (group_rows objs) = js_sort x_cmp B \<and>
               last (group_rows objs) = js_sort x_cmp F \<and>
               2 \<le> length (group_rows objs)"
proof -
  let ?s = "js_sort y_cmp objs"
  let ?pB = "\<lambda>d. d \<in> set back"
  let ?nF = "\<lambda>d. d \<notin> set front"
  have ms: "mset ?s = mset back + mset middle + mset front" by (simp add: mset_js_sort parts)
  have "set ?s = set_mset (mset back + mset middle + mset front)"
    by (simp only: ms [symmetric] set_mset_mset)
  then have set_s: "set ?s = set back \<union> set middle \<union> set front" by simp
  have disj_b: "\<forall>d \<in> set (middle @ front). d \<notin> set back"
  proof
    fix d assume d: "d \<in> set (middle @ front)"
    show "d \<notin> set back"
    proof
      assume "d \<in> set back"
      with b_back d have "desk_y d < desk_y d" by blast
      then show False by simp
    qed
  qed
  have disj_f: "\<forall>d \<in> set (back @ middle). d \<notin> set front"
  proof
    fix d assume d: "d \<in> set (back @ middle)"
    show "d \<notin> set front"
    proof
      assume "d \<in> set front"
      with f_front d have "desk_y d < desk_y d" by blast
      then show False by simp
    qed
  qed
  have srt: "sorted_wrt (\<lambda>a b. desk_y a \<le> desk_y b) ?s" by (rule sorted_by_y)
  have sB: "sorted_wrt (\<lambda>a b. ?pB b \<longrightarrow> ?pB a) ?s"
  proof (rule sorted_wrt_mono_rel [OF _ srt])
    fix a b assume a: "a \<in> set ?s" and b: "b \<in> set ?s" and le: "desk_y a \<le> desk_y b"
    show "b \<in> set back \<longrightarrow> a \<in> set back"
    proof
      assume bb: "b \<in> set back"
      show "a \<in> set back"
      proof (rule ccontr)
        assume "a \<notin> set back"
        with a set_s have "a \<in> set (middle @ front)" by simp
        with b_back bb have "desk_y b < desk_y a" by blast
        with le show False by simp
      qed
    qed
  qed
  have sF: "sorted_wrt (\<lambda>a b. ?nF b \<longrightarrow> ?nF a) ?s"
  proof (rule sorted_wrt_mono_rel [OF _ srt])
    fix a b assume a: "a \<in> set ?s" and b: "b \<in> set ?s" and le: "desk_y a \<le> desk_y b"
    show "b \<notin> set front \<longrightarrow> a \<notin> set front"
    proof
      assume bn: "b \<notin> set front"
      show "a \<notin> set front"
      proof
        assume af: "a \<in> set front"
        from bn b set_s have "b \<in> set (back @ middle)" by simp
        with f_front af have "desk_y b < desk_y a" by blast
        with le show False by simp
      qed
    qed
  qed
  let ?B = "filter ?pB ?s"
  let ?F = "filter (\<lambda>d. \<not> ?nF d) ?s"
  have mB: "mset ?B = mset back"
  proof -
    have "mset ?B = filter_mset ?pB (mset back + (mset middle + mset front))"
      by (simp add: ms add.assoc)
    also have "\<dots> = filter_mset ?pB (mset back + mset (middle @ front))" by simp
    also have "\<dots> = mset back" by (rule filter_mset_part(1) [OF disj_b])
    finally show ?thesis .
  qed
  have mF: "mset ?F = mset front"
  proof -
    have "mset ?F = filter_mset (\<lambda>d. d \<in> set front) (mset (back @ middle) + mset front)"
      by (simp add: ms)
    also have "\<dots> = mset front" by (rule filter_mset_part(2) [OF disj_f])
    finally show ?thesis .
  qed
  have B_ne: "?B \<noteq> []" using mB ne(1) by (metis mset_zero_iff)
  have F_ne: "?F \<noteq> []" using mF ne(2) by (metis mset_zero_iff)
  have setB: "set ?B = set back" using mB by (rule mset_eq_setD)
  have setF: "set ?F = set front" using mF by (rule mset_eq_setD)
  have tB: "takeWhile ?pB ?s = ?B" by (rule takeWhile_filter [OF sB])
  have splitF: "?s = filter ?nF ?s @ ?F" by (rule split_by_filter [OF sF])
  from B_ne obtain first bs where B: "?B = first # bs" by (cases ?B) auto
  from B tB obtain rest where s: "?s = first # rest" and bs: "bs = takeWhile ?pB rest"
    by (cases ?s) (auto split: if_splits)
  have first_back: "first \<in> set back" using B setB by (metis list.set_intros(1))
  have gr: "group_rows objs = row_loop [] first [] rest" by (simp add: group_rows_def s)
  have same_first: "same_row d first \<longleftrightarrow> d \<in> set back" if "d \<in> set ?s" for d
  proof
    assume sr: "same_row d first"
    show "d \<in> set back"
    proof (rule ccontr)
      assume "d \<notin> set back"
      with that set_s have "d \<in> set (middle @ front)" by simp
      with b_back first_back have "\<not> same_row first d" by blast
      with sr show False by (simp add: same_row_sym)
    qed
  next
    assume "d \<in> set back"
    with b_row first_back show "same_row d first" by blast
  qed
  have "takeWhile (\<lambda>d. same_row d first) rest = takeWhile ?pB rest"
  proof (rule takeWhile_cong [OF refl])
    fix d assume "d \<in> set rest"
    then have "d \<in> set ?s" by (simp add: s)
    then show "same_row d first = (d \<in> set back)" by (rule same_first)
  qed
  with bs have tw: "takeWhile (\<lambda>d. same_row d first) rest = bs" by simp
  from row_loop_first_row [of "[]" first "[]" rest] obtain further where
    "row_loop [] first [] rest = js_sort x_cmp (first # bs) # further"
    by (auto simp: tw)
  with gr B have hd_eq: "hd (group_rows objs) = js_sort x_cmp ?B" by simp
  from F_ne obtain f0 fs where F: "?F = f0 # fs" by (cases ?F) auto
  have f0: "f0 \<in> set front" using F setF by (metis list.set_intros(1))
  have fs: "set fs \<subseteq> set front" using F setF by (metis set_subset_Cons)
  have "first \<notin> set front" using first_back disj_f by simp
  then have nf: "filter ?nF ?s = first # filter ?nF rest" by (simp add: s)
  have "first # rest = ?s" by (simp only: s)
  also have "\<dots> = filter ?nF ?s @ ?F" by (rule splitF)
  also have "filter ?nF ?s = first # filter ?nF rest" by (rule nf)
  also have "?F = f0 # fs" by (rule F)
  finally have "first # rest = (first # filter ?nF rest) @ f0 # fs" .
  then have rest: "rest = filter ?nF rest @ f0 # fs" by simp
  have far: "\<forall>x \<in> set (first # filter ?nF rest). \<not> same_row f0 x"
  proof
    fix x assume x: "x \<in> set (first # filter ?nF rest)"
    then have "x \<in> set ?s" "x \<notin> set front" using s \<open>first \<notin> set front\<close> by auto
    with set_s have "x \<in> set (back @ middle)" by simp
    with f_front f0 have "\<not> same_row x f0" by blast
    then show "\<not> same_row f0 x" by (simp add: same_row_sym)
  qed
  have close: "\<forall>f \<in> set fs. same_row f f0" using f_row f0 fs by blast
  from row_loop_last_row [OF far close, of "[]" "[]"] obtain rs where
    rl: "row_loop [] first [] (filter ?nF rest @ f0 # fs) = rs @ [js_sort x_cmp (f0 # fs)]"
    and rs: "rs \<noteq> []" by auto
  have "row_loop [] first [] rest = row_loop [] first [] (filter ?nF rest @ f0 # fs)"
    using rest by (rule arg_cong)
  with gr rl have gr2: "group_rows objs = rs @ [js_sort x_cmp (f0 # fs)]" by simp
  have last_eq: "last (group_rows objs) = js_sort x_cmp ?F" using F by (simp add: gr2)
  have len: "2 \<le> length (group_rows objs)" using rs by (cases rs) (simp_all add: gr2)
  from mB mF hd_eq last_eq len show ?thesis by blast
qed

lemma layout_owned:
  assumes g: "grid_ok numCols grid colss rows" and i: "i < length rows" and j: "j < length (rows ! i)"
  shows "colss ! i ! j < length (pad_rows grid ! i)"
    and "pad_rows grid ! i ! (colss ! i ! j) = desk_type (rows ! i ! j)"
    and "pm_get (grid_entries 0 colss rows) (pos_key i (colss ! i ! j)) = Some (desk_id (rows ! i ! j))"
proof -
  let ?c = "colss ! i ! j"
  have ig: "i < length grid" using grid_ok_lengths [OF g] i by simp
  have ok: "row_ok numCols (grid ! i) (colss ! i) (rows ! i)" using grid_ok_nth [OF g i] .
  then have c: "?c < length (grid ! i)" and cell: "grid ! i ! ?c = desk_type (rows ! i ! j)"
    using j by (auto simp: row_ok_def)
  have "length (grid ! i) \<le> length (pad_rows grid ! i)" by (simp add: pad_rows_nth [OF ig])
  with c show "?c < length (pad_rows grid ! i)" by simp
  show "pad_rows grid ! i ! ?c = desk_type (rows ! i ! j)"
    using pad_cell [OF ig c] cell by simp
  show "pm_get (grid_entries 0 colss rows) (pos_key i ?c) = Some (desk_id (rows ! i ! j))"
    unfolding pm_get_iff [OF g] using i j by blast
qed

lemma layout_row_mset:
  assumes g: "grid_ok numCols grid colss rows" and i: "i < length rows"
    and t: "\<forall>d \<in> set (rows ! i). desk_type d \<noteq> ''--''"
  shows "mset (filter (\<lambda>cell. cell \<noteq> ''--'') (pad_rows grid ! i)) = mset (map desk_type (rows ! i))"
proof -
  let ?row = "pad_rows grid ! i"
  have ok: "row_ok numCols (grid ! i) (colss ! i) (rows ! i)" using grid_ok_nth [OF g i] .
  then have len: "length (colss ! i) = length (rows ! i)" and dist: "distinct (colss ! i)"
    by (auto simp: row_ok_def)
  have "mset (filter (\<lambda>cell. cell \<noteq> ''--'') ?row) = mset (map ((!) ?row) (colss ! i))"
  proof (rule filled_cells_mset [OF dist])
    show "\<forall>c \<in> set (colss ! i). c < length ?row \<and> ?row ! c \<noteq> ''--''"
    proof
      fix c assume "c \<in> set (colss ! i)"
      then obtain j where j: "j < length (rows ! i)" "colss ! i ! j = c"
        using len by (auto simp: in_set_conv_nth)
      from j(1) t have "desk_type (rows ! i ! j) \<noteq> ''--''" by simp
      with layout_owned(1,2) [OF g i j(1)] j(2) show "c < length ?row \<and> ?row ! c \<noteq> ''--''"
        by simp
    qed
    show "\<forall>c < length ?row. c \<notin> set (colss ! i) \<longrightarrow> ?row ! c = ''--''"
      using pad_row_cell_blank [OF g i] by simp
  qed
  also have "map ((!) ?row) (colss ! i) = map desk_type (rows ! i)"
    using layout_owned(2) [OF g i] len by (simp add: list_eq_iff_nth_eq)
  finally show ?thesis .
qed

lemma layout_cells:
  assumes g: "grid_ok numCols grid colss rows" and i: "i < length rows"
    and c: "c < length (pad_rows grid ! i)"
  shows "pad_rows grid ! i ! c = ''--'' \<or> (\<exists>d \<in> set (rows ! i). pad_rows grid ! i ! c = desk_type d)"
proof (cases "c \<in> set (colss ! i)")
  case False
  from pad_row_cell_blank [OF g i c False] show ?thesis by simp
next
  case True
  have "length (colss ! i) = length (rows ! i)"
    using grid_ok_nth [OF g i] by (simp add: row_ok_def)
  with True obtain j where j: "j < length (rows ! i)" "colss ! i ! j = c"
    by (auto simp: in_set_conv_nth)
  from layout_owned(2) [OF g i j(1)] j have "pad_rows grid ! i ! c = desk_type (rows ! i ! j)"
    and "rows ! i ! j \<in> set (rows ! i)" by simp_all
  then show ?thesis by blast
qed

lemma matrix_read:
  assumes ne: "objs \<noteq> []" and t: "\<forall>d \<in> set objs. valid_typeCode (desk_type d)"
  obtains numCols grid colss where
    "grid_ok numCols grid colss (group_rows objs)"
    "0 < numCols"
    "layout (convertObjectsToLayoutMatrix objs) = pad_rows grid"
    "positionMap (convertObjectsToLayoutMatrix objs) = grid_entries 0 colss (group_rows objs)"
    "matrix (convertObjectsToLayoutMatrix objs) = join [CHR 0x0A] (map (join '','') (pad_rows grid))"
    "read_matrix (matrix (convertObjectsToLayoutMatrix objs)) = pad_rows grid"
    "\<forall>row \<in> set (pad_rows grid). row \<noteq> [] \<and> (\<forall>cell \<in> set row. plain_cell cell)"
proof -
  let ?rows = "group_rows objs"
  have t1: "\<forall>d \<in> set objs. desk_type d \<noteq> ''--''"
  proof
    fix d assume "d \<in> set objs"
    with t have "valid_typeCode (desk_type d)" by simp
    then show "desk_type d \<noteq> ''--''" by (auto simp: valid_typeCode_def)
  qed
  from convert_nonempty [OF ne t1] obtain numCols grid colss where
      g: "grid_ok numCols grid colss ?rows" and pos: "0 < numCols"
      and lay: "layout (convertObjectsToLayoutMatrix objs) = pad_rows grid"
      and pm: "positionMap (convertObjectsToLayoutMatrix objs) = grid_entries 0 colss ?rows"
      and mat: "matrix (convertObjectsToLayoutMatrix objs) =
         join [CHR 0x0A] (map (join '','') (pad_rows grid))"
    by blast
  have len: "length grid = length ?rows" using grid_ok_lengths [OF g] by simp
  have rows_ne: "?rows \<noteq> []" using group_rows_not_Nil [OF ne] .
  have pg_ne: "pad_rows grid \<noteq> []" using len rows_ne length_pad_rows [of grid] by auto
  have cells: "\<forall>row \<in> set (pad_rows grid). row \<noteq> [] \<and> (\<forall>cell \<in> set row. plain_cell cell)"
  proof
    fix row assume "row \<in> set (pad_rows grid)"
    then obtain i where i: "i < length grid" and row: "row = pad_rows grid ! i"
      by (auto simp: in_set_conv_nth length_pad_rows)
    have ir: "i < length ?rows" using i len by simp
    have "numCols \<le> length (grid ! i)"
      using grid_ok_nth [OF g ir] by (simp add: row_ok_def)
    also have "\<dots> \<le> max_len grid" by (rule max_len_ge [OF i])
    finally have "0 < length (pad_rows grid ! i)"
      using pos i by (simp add: length_pad_rows_nth)
    then have "row \<noteq> []" using row by auto
    moreover have "\<forall>cell \<in> set row. plain_cell cell"
    proof
      fix cell assume "cell \<in> set row"
      then obtain c where c: "c < length (pad_rows grid ! i)" and cell: "cell = pad_rows grid ! i ! c"
        using row by (auto simp: in_set_conv_nth)
      from layout_cells [OF g ir c] show "plain_cell cell"
      proof
        assume "pad_rows grid ! i ! c = ''--''"
        with cell show ?thesis by (simp add: plain_filler)
      next
        assume "\<exists>d \<in> set (?rows ! i). pad_rows grid ! i ! c = desk_type d"
        then obtain d where d: "d \<in> set (?rows ! i)" and e: "pad_rows grid ! i ! c = desk_type d"
          by blast
        from d ir have "d \<in> set (concat ?rows)" by auto
        then have "d \<in> set objs" by (simp only: set_concat_group_rows)
        with t have "valid_typeCode (desk_type d)" by simp
        then show ?thesis unfolding cell e by (rule plain_typeCode)
      qed
    qed
    ultimately show "row \<noteq> [] \<and> (\<forall>cell \<in> set row. plain_cell cell)" by simp
  qed
  have "read_matrix (matrix (convertObjectsToLayoutMatrix objs)) = pad_rows grid"
    unfolding mat by (rule read_matrix_join(1) [OF cells pg_ne])
  with g pos lay pm mat show ?thesis using cells by (rule that)
qed

lemma row_in_objs:
  assumes "i < length (group_rows objs)" and "d \<in> set (group_rows objs ! i)"
  shows "d \<in> set objs"
proof -
  from assms have "d \<in> set (concat (group_rows objs))" by auto
  then show ?thesis by (simp only: set_concat_group_rows)
qed

lemma line_of_row:
  assumes g: "grid_ok numCols grid colss (group_rows objs)"
    and i: "i < length (group_rows objs)"
    and t: "\<forall>d \<in> set objs. desk_type d \<noteq> ''--''"
    and row: "group_rows objs ! i = js_sort x_cmp R" and R: "mset R = mset part"
  shows "mset (filter (\<lambda>cell. cell \<noteq> ''--'') (pad_rows grid ! i)) = mset (map desk_type part)"
    and "\<forall>d \<in> set part. \<exists>c < length (pad_rows grid ! i).
           pad_rows grid ! i ! c = desk_type d \<and>
           pm_get (grid_entries 0 colss (group_rows objs)) (pos_key i c) = Some (desk_id d)"
proof -
  let ?rows = "group_rows objs"
  have ti: "\<forall>d \<in> set (?rows ! i). desk_type d \<noteq> ''--''"
  proof
    fix d assume "d \<in> set (?rows ! i)"
    then have "d \<in> set objs" by (rule row_in_objs [OF i])
    with t show "desk_type d \<noteq> ''--''" by simp
  qed
  have "mset (?rows ! i) = mset (js_sort x_cmp R)" by (simp only: row)
  also have "\<dots> = mset R" by (rule mset_js_sort)
  also have "\<dots> = mset part" by (rule R)
  finally have mp: "mset (?rows ! i) = mset part" .
  have "mset (map desk_type (?rows ! i)) = image_mset desk_type (mset (?rows ! i))"
    by (rule mset_map)
  also have "\<dots> = image_mset desk_type (mset part)" by (simp only: mp)
  also have "\<dots> = mset (map desk_type part)" by (rule mset_map [symmetric])
  finally have types: "mset (map desk_type (?rows ! i)) = mset (map desk_type part)" .
  have "mset (filter (\<lambda>cell. cell \<noteq> ''--'') (pad_rows grid ! i)) = mset (map desk_type (?rows ! i))"
    by (rule layout_row_mset [OF g i ti])
  also note types
  finally show "mset (filter (\<lambda>cell. cell \<noteq> ''--'') (pad_rows grid ! i)) = mset (map desk_type part)" .
  have sets: "set (?rows ! i) = set part" using mp by (rule mset_eq_setD)
  show "\<forall>d \<in> set part. \<exists>c < length (pad_rows grid ! i).
           pad_rows grid ! i ! c = desk_type d \<and>
           pm_get (grid_entries 0 colss ?rows) (pos_key i c) = Some (desk_id d)"
  proof
    fix d assume "d \<in> set part"
    with sets have "d \<in> set (?rows ! i)" by simp
    then obtain j where j: "j < length (?rows ! i)" and d: "?rows ! i ! j = d"
      by (auto simp: in_set_conv_nth)
    note o = layout_owned [OF g i j]
    show "\<exists>c < length (pad_rows grid ! i).
           pad_rows grid ! i ! c = desk_type d \<and>
           pm_get (grid_entries 0 colss ?rows) (pos_key i c) = Some (desk_id d)"
    proof (intro exI conjI)
      show "colss ! i ! j < length (pad_rows grid ! i)" by (rule o(1))
      show "pad_rows grid ! i ! (colss ! i ! j) = desk_type d" using o(2) d by simp
      show "pm_get (grid_entries 0 colss ?rows) (pos_key i (colss ! i ! j)) = Some (desk_id d)"
        using o(3) d by simp
    qed
  qed
qed

text \<open>
  C1.  Let the desks consist of a back row, a front row and any desks between them: the
  desks of the back row have the smallest \<open>y\<close>, those of the front row the largest, the
  vertical centres of two desks of one of these rows are less than a desk height apart
  and those of a desk of the row and a desk outside it are not.  Then the matrix text has
  at least two lines, the desks of the back row are the desks of its first line and the
  desks of the front row are the desks of its last line.
\<close>

theorem C1_rows_back_to_front:
  assumes parts: "mset objs = mset back + mset middle + mset front"
    and ne: "back \<noteq> []" "front \<noteq> []"
    and t: "\<forall>d \<in> set objs. valid_typeCode (desk_type d)"
    and b_row: "\<forall>a \<in> set back. \<forall>b \<in> set back. same_row a b"
    and f_row: "\<forall>a \<in> set front. \<forall>b \<in> set front. same_row a b"
    and b_back: "\<forall>b \<in> set back. \<forall>d \<in> set (middle @ front). desk_y b < desk_y d \<and> \<not> same_row b d"
    and f_front: "\<forall>f \<in> set front. \<forall>d \<in> set (back @ middle). desk_y d < desk_y f \<and> \<not> same_row d f"
  shows "2 \<le> length (read_matrix (matrix (convertObjectsToLayoutMatrix objs))) \<and>
         mset (filter (\<lambda>cell. cell \<noteq> ''--'')
                 (hd (read_matrix (matrix (convertObjectsToLayoutMatrix objs))))) =
           mset (map desk_type back) \<and>
         mset (filter (\<lambda>cell. cell \<noteq> ''--'')
                 (last (read_matrix (matrix (convertObjectsToLayoutMatrix objs))))) =
           mset (map desk_type front) \<and>
         (\<forall>d \<in> set back.
            \<exists>c < length (hd (read_matrix (matrix (convertObjectsToLayoutMatrix objs)))).
              hd (read_matrix (matrix (convertObjectsToLayoutMatrix objs))) ! c = desk_type d \<and>
              pm_get (positionMap (convertObjectsToLayoutMatrix objs)) (pos_key 0 c) =
                Some (desk_id d)) \<and>
         (\<forall>d \<in> set front.
            \<exists>c < length (last (read_matrix (matrix (convertObjectsToLayoutMatrix objs)))).
              last (read_matrix (matrix (convertObjectsToLayoutMatrix objs))) ! c = desk_type d \<and>
              pm_get (positionMap (convertObjectsToLayoutMatrix objs))
                (pos_key (length (read_matrix (matrix (convertObjectsToLayoutMatrix objs))) - 1) c) =
                Some (desk_id d))"
proof -
  let ?rows = "group_rows objs"
  have "mset objs \<noteq> {#}" using parts ne(1) by simp
  then have one: "objs \<noteq> []" by simp
  have t1: "\<forall>d \<in> set objs. desk_type d \<noteq> ''--''"
  proof
    fix d assume "d \<in> set objs"
    with t have "valid_typeCode (desk_type d)" by simp
    then show "desk_type d \<noteq> ''--''" by (auto simp: valid_typeCode_def)
  qed
  obtain numCols grid colss where
      g: "grid_ok numCols grid colss ?rows"
      and "0 < numCols"
      and "layout (convertObjectsToLayoutMatrix objs) = pad_rows grid"
      and pm: "positionMap (convertObjectsToLayoutMatrix objs) = grid_entries 0 colss ?rows"
      and "matrix (convertObjectsToLayoutMatrix objs) = join [CHR 0x0A] (map (join '','') (pad_rows grid))"
      and rd: "read_matrix (matrix (convertObjectsToLayoutMatrix objs)) = pad_rows grid"
      and "\<forall>row \<in> set (pad_rows grid). row \<noteq> [] \<and> (\<forall>cell \<in> set row. plain_cell cell)"
    by (rule matrix_read [OF one t])
  from group_rows_back_front [OF parts ne b_row f_row b_back f_front] obtain B F where
      BF: "mset B = mset back \<and> mset F = mset front \<and>
           hd ?rows = js_sort x_cmp B \<and> last ?rows = js_sort x_cmp F \<and> 2 \<le> length ?rows"
    by (elim exE)
  then have B: "mset B = mset back" and F: "mset F = mset front"
      and hd_rows: "hd ?rows = js_sort x_cmp B" and last_rows: "last ?rows = js_sort x_cmp F"
      and two: "2 \<le> length ?rows"
    by simp_all
  let ?n = "length ?rows - 1"
  have len: "length (pad_rows grid) = length ?rows"
    using grid_ok_lengths [OF g] by (simp add: length_pad_rows)
  have i0: "0 < length ?rows" and il: "?n < length ?rows" using two by linarith+
  have rows_ne: "?rows \<noteq> []" using i0 by simp
  have "0 < length (pad_rows grid)" using i0 by (simp only: len)
  then have lines_ne: "pad_rows grid \<noteq> []" by simp
  have r0: "?rows ! 0 = js_sort x_cmp B" using hd_rows rows_ne by (simp add: hd_conv_nth)
  have rl: "?rows ! ?n = js_sort x_cmp F" using last_rows rows_ne by (simp add: last_conv_nth)
  have h: "hd (pad_rows grid) = pad_rows grid ! 0" using lines_ne by (simp add: hd_conv_nth)
  have l: "last (pad_rows grid) = pad_rows grid ! ?n" using lines_ne len by (simp add: last_conv_nth)
  note first_line = line_of_row [OF g i0 t1 r0 B]
  note last_line = line_of_row [OF g il t1 rl F]
  show ?thesis
    unfolding rd pm h l len
    using two first_line(1) last_line(1) first_line(2) last_line(2)
    by (intro conjI)
qed

theorem C1_rows_back_to_front_witness:
  "2 \<le> length (read_matrix (matrix (convertObjectsToLayoutMatrix single_behind_triple))) \<and>
   mset (filter (\<lambda>cell. cell \<noteq> ''--'')
           (hd (read_matrix (matrix (convertObjectsToLayoutMatrix single_behind_triple))))) =
     mset [''1''] \<and>
   mset (filter (\<lambda>cell. cell \<noteq> ''--'')
           (last (read_matrix (matrix (convertObjectsToLayoutMatrix single_behind_triple))))) =
     mset [''111'']"
proof -
  let ?a = "desk_at ''a'' ''1'' 4 0 4 4"
  let ?b = "desk_at ''b'' ''111'' 0 6 12 4"
  have parts: "mset single_behind_triple = mset [?a] + mset [] + mset [?b]"
    by (simp add: single_behind_triple_def)
  have ne: "[?a] \<noteq> []" "[?b] \<noteq> []" by simp_all
  have t: "\<forall>d \<in> set single_behind_triple. valid_typeCode (desk_type d)"
    by (simp add: single_behind_triple_def desk_at_def valid_typeCode_def)
  have b_row: "\<forall>x \<in> set [?a]. \<forall>y \<in> set [?a]. same_row x y" by (simp add: same_row_refl)
  have f_row: "\<forall>x \<in> set [?b]. \<forall>y \<in> set [?b]. same_row x y" by (simp add: same_row_refl)
  have b_back: "\<forall>x \<in> set [?a]. \<forall>d \<in> set ([] @ [?b]). desk_y x < desk_y d \<and> \<not> same_row x d"
    by (simp add: desk_at_def same_row_def DESK_HEIGHT_UNITS_def)
  have f_front: "\<forall>f \<in> set [?b]. \<forall>d \<in> set ([?a] @ []). desk_y d < desk_y f \<and> \<not> same_row d f"
    by (simp add: desk_at_def same_row_def DESK_HEIGHT_UNITS_def)
  note main = C1_rows_back_to_front [OF parts ne t b_row f_row b_back f_front]
  have types: "map desk_type [?a] = [''1'']" "map desk_type [?b] = [''111'']"
    by (simp_all add: desk_at_def)
  from main have "2 \<le> length (read_matrix (matrix (convertObjectsToLayoutMatrix single_behind_triple)))"
    by (rule conjunct1)
  moreover from main have "mset (filter (\<lambda>cell. cell \<noteq> ''--'')
           (hd (read_matrix (matrix (convertObjectsToLayoutMatrix single_behind_triple))))) =
     mset (map desk_type [?a])"
    by (rule conjunct1 [OF conjunct2])
  moreover from main have "mset (filter (\<lambda>cell. cell \<noteq> ''--'')
           (last (read_matrix (matrix (convertObjectsToLayoutMatrix single_behind_triple))))) =
     mset (map desk_type [?b])"
    by (rule conjunct1 [OF conjunct2 [OF conjunct2]])
  ultimately show ?thesis unfolding types by (intro conjI)
qed

section \<open>The AI client: proofs\<close>

lemma try_block_result:
  assumes "try_block generateContent JSON_parse p = Inr r"
  shows "(isArray (seating r) \<and> error r = None) \<or>
         (seating r = None \<and>
          (\<exists>v response t parsed.
             error r = Some (Msg_FromAI v) \<and> truthy v \<and>
             generateContent p = Inr response \<and> response_text response = Some t \<and>
             JSON_parse (trim t) = Inr parsed \<and> get_prop parsed ''error'' = Inr (Some v)))"
  using assms
  by (auto simp: try_block_def truthy_opt_def
      split: sum.splits option.splits if_splits)

lemma isArray_not_None: "isArray v \<Longrightarrow> v \<noteq> None"
  by (cases v) simp_all

text \<open>
  C10 (the claim as stated fails).  The AI answers \<open>{"error": 5}\<close>: the field \<open>error\<close> is
  truthy, so the code returns it as the error of the result, and the error is the number
  5, not a string.
\<close>

theorem C10_error_is_not_always_a_string:
  "returned (generateSeatingArrangement (ai_answers ''{\"error\": 5}'') (parse_table answer_error_five)
      request_one_double) =
     Inr \<lparr> seating = None, error = Some (Msg_FromAI (JNum 5)) \<rparr> \<and>
   \<not> is_string_message (Msg_FromAI (JNum 5))"
proof -
  have t: "trim ''{\"error\": 5}'' = ''{\"error\": 5}''"
    by (simp add: trim_def is_space_def)
  show ?thesis
    by (simp add: generateSeatingArrangement_def try_block_def ai_answers_def parse_table_def
        answer_error_five_def t truthy_opt_def)
qed

text \<open>
  C10 (amended).  The promise of \<open>generateSeatingArrangement\<close> never rejects: whatever the
  service and the parser do, it resolves to a result.  The result holds either a seating
  that is an array and no error, or no seating and an error; the error is the
  communication message, or the truthy value of the field \<open>error\<close> of the parsed answer,
  passed on as it is.  An error is a string unless the answer's field \<open>error\<close> is a value
  that is not a string.
\<close>

theorem C10_result_is_exclusive:
  "\<exists>r. returned (generateSeatingArrangement generateContent JSON_parse req) = Inr r \<and>
       ((isArray (seating r) \<and> seating r \<noteq> None \<and> error r = None) \<or>
        (seating r = None \<and> error r = Some Msg_Communication) \<or>
        (seating r = None \<and>
         (\<exists>v response t parsed.
            error r = Some (Msg_FromAI v) \<and> truthy v \<and>
            (is_string_message (Msg_FromAI v) \<longleftrightarrow> (\<exists>s. v = JStr s)) \<and>
            generateContent (build_prompt req) = Inr response \<and>
            response_text response = Some t \<and> JSON_parse (trim t) = Inr parsed \<and>
            get_prop parsed ''error'' = Inr (Some v))))"
proof (cases "try_block generateContent JSON_parse (build_prompt req)")
  case (Inl e)
  then show ?thesis
    by (simp add: generateSeatingArrangement_def)
next
  case (Inr r)
  have str: "is_string_message (Msg_FromAI v) \<longleftrightarrow> (\<exists>s. v = JStr s)" for v
    by (cases v) simp_all
  from try_block_result [OF Inr] have
    "(isArray (seating r) \<and> seating r \<noteq> None \<and> error r = None) \<or>
     (seating r = None \<and> error r = Some Msg_Communication) \<or>
     (seating r = None \<and>
      (\<exists>v response t parsed.
         error r = Some (Msg_FromAI v) \<and> truthy v \<and>
         (is_string_message (Msg_FromAI v) \<longleftrightarrow> (\<exists>s. v = JStr s)) \<and>
         generateContent (build_prompt req) = Inr response \<and>
         response_text response = Some t \<and> JSON_parse (trim t) = Inr parsed \<and>
         get_prop parsed ''error'' = Inr (Some v)))"
    using str isArray_not_None by blast
  moreover have "returned (generateSeatingArrangement generateContent JSON_parse req) = Inr r"
    using Inr by (simp add: generateSeatingArrangement_def)
  ultimately show ?thesis by blast
qed

theorem C10_result_is_exclusive_witness:
  "\<exists>r. returned (generateSeatingArrangement ai_unreachable (parse_table []) request_one_double) = Inr r \<and>
       seating r = None \<and> error r = Some Msg_Communication"
  using C10_result_is_exclusive [of ai_unreachable "parse_table []" request_one_double]
  by (simp add: generateSeatingArrangement_def try_block_def ai_unreachable_def)

text \<open>
  C5 (the code at the failing input). An answer that parses, whose \<open>error\<close> is absent or
  falsy and whose \<open>seating\<close> is missing or not an array, makes the code throw the error
  "invalid format" inside its own \<open>try\<close> block; the \<open>catch\<close> logs it and returns the
  communication error, the same result as for a failure of the transport.
\<close>

theorem C5_invalid_format_reported_as_communication_error:
  assumes "generateContent (build_prompt req) = Inr response"
    and "response_text response = Some t"
    and "JSON_parse (trim t) = Inr parsed"
    and "get_prop parsed ''error'' = Inr parsed_error"
    and "\<not> truthy_opt parsed_error"
    and "get_prop parsed ''seating'' = Inr parsed_seating"
    and "\<not> truthy_opt parsed_seating \<or> \<not> isArray parsed_seating"
  shows "generateSeatingArrangement generateContent JSON_parse req =
           \<lparr> returned = Inr \<lparr> seating = None, error = Some Msg_Communication \<rparr>,
             logged = [Error Msg_InvalidFormat] \<rparr> \<and>
         returned (generateSeatingArrangement generateContent JSON_parse req) =
           returned (generateSeatingArrangement (\<lambda>p. Inl TransportFailure) JSON_parse req)"
proof -
  have "try_block generateContent JSON_parse (build_prompt req) = Inl (Error Msg_InvalidFormat)"
    using assms by (auto simp: try_block_def)
  moreover have "try_block (\<lambda>p. Inl TransportFailure) JSON_parse (build_prompt req) = Inl TransportFailure"
    by (simp add: try_block_def)
  ultimately show ?thesis
    by (simp add: generateSeatingArrangement_def)
qed

theorem C5_invalid_format_reported_as_communication_error_witness:
  "generateSeatingArrangement (ai_answers ''{\"error\": null}'') (parse_table answer_without_seating)
       request_one_double =
     \<lparr> returned = Inr \<lparr> seating = None, error = Some Msg_Communication \<rparr>,
       logged = [Error Msg_InvalidFormat] \<rparr> \<and>
   returned (generateSeatingArrangement (ai_answers ''{\"error\": null}'')
       (parse_table answer_without_seating) request_one_double) =
     returned (generateSeatingArrangement (\<lambda>p. Inl TransportFailure)
       (parse_table answer_without_seating) request_one_double)"
proof -
  have t: "trim ''{\"error\": null}'' = ''{\"error\": null}''"
    by (simp add: trim_def is_space_def)
  show ?thesis
    by (rule C5_invalid_format_reported_as_communication_error
          [where response = "\<lparr> response_text = Some ''{\"error\": null}'' \<rparr>"
             and t = "''{\"error\": null}''" and parsed = "JObj [(''error'', JNull)]"
             and parsed_error = "Some JNull" and parsed_seating = None])
       (simp_all add: ai_answers_def parse_table_def answer_without_seating_def t truthy_opt_def)
qed

section \<open>The generate button: proofs\<close>

subsection \<open>Available seats\<close>

lemma count_seats_sum:
  assumes "\<forall>d \<in> set objs. desk_type d \<noteq> ''--''"
  shows "count_seats objs n =
           n + (\<Sum>d\<leftarrow>objs. int (potentialSeats (desk_type d)) - int (numUserBlocked d))"
  using assms by (induction objs arbitrary: n) auto

lemma count_char_zero_one:
  assumes "set t \<subseteq> {CHR ''0'', CHR ''1''}"
  shows "count_char CHR ''0'' t + count_char CHR ''1'' t = length t"
  using assms by (induction t) (auto simp: count_char_def)

lemma count_char_absent: "c \<notin> set t \<Longrightarrow> count_char c t = 0"
  by (induction t) (auto simp: count_char_def)

text \<open>
  C7. For desks whose type codes are strings over 0 and 1, the number of available seats
  that the check against the roster uses is the sum, over the desks, of the number of
  "1" characters of the type code if it has one and of its "0" characters otherwise,
  minus the number of seats the user blocked on the desk. With a "1" present the "0"
  positions do not count; without one every position counts. The codes "101", "00" and
  "11" count 2 seats each when no seat is blocked by the user.
\<close>

theorem C7_available_seats:
  assumes "\<forall>d \<in> set objs. set (desk_type d) \<subseteq> {CHR ''0'', CHR ''1''}"
  shows "count_seats objs 0 =
           (\<Sum>d\<leftarrow>objs.
              int (if CHR ''1'' \<in> set (desk_type d)
                   then length (filter (\<lambda>c. c = CHR ''1'') (desk_type d))
                   else length (filter (\<lambda>c. c = CHR ''0'') (desk_type d)))
              - int (case userBlockedSeats d of None \<Rightarrow> 0 | Some blocked \<Rightarrow> length blocked)) \<and>
         (\<forall>d \<in> set objs.
            potentialSeats (desk_type d) =
              (if CHR ''1'' \<in> set (desk_type d)
               then length (desk_type d) - count_char CHR ''0'' (desk_type d)
               else length (desk_type d))) \<and>
         count_seats [desk_at ''a'' ''101'' 0 0 12 4] 0 = 2 \<and>
         count_seats [desk_at ''a'' ''00'' 0 0 8 4] 0 = 2 \<and>
         count_seats [desk_at ''a'' ''11'' 0 0 8 4] 0 = 2"
proof (intro conjI ballI)
  have ne: "\<forall>d \<in> set objs. desk_type d \<noteq> ''--''"
    using assms by auto
  show "count_seats objs 0 =
           (\<Sum>d\<leftarrow>objs.
              int (if CHR ''1'' \<in> set (desk_type d)
                   then length (filter (\<lambda>c. c = CHR ''1'') (desk_type d))
                   else length (filter (\<lambda>c. c = CHR ''0'') (desk_type d)))
              - int (case userBlockedSeats d of None \<Rightarrow> 0 | Some blocked \<Rightarrow> length blocked))"
    unfolding count_seats_sum [OF ne] potentialSeats_def numUserBlocked_def count_char_def
    by simp
next
  fix d assume "d \<in> set objs"
  with assms have t: "set (desk_type d) \<subseteq> {CHR ''0'', CHR ''1''}" by blast
  show "potentialSeats (desk_type d) =
          (if CHR ''1'' \<in> set (desk_type d)
           then length (desk_type d) - count_char CHR ''0'' (desk_type d)
           else length (desk_type d))"
    using count_char_zero_one [OF t] count_char_absent [of "CHR ''1''" "desk_type d"]
    by (auto simp: potentialSeats_def)
qed (simp_all add: desk_at_def potentialSeats_def count_char_def numUserBlocked_def)

theorem C7_available_seats_witness:
  "count_seats [desk_at ''a'' ''101'' 0 0 12 4, desk_at ''b'' ''00'' 0 6 8 4] 0 = 2 + 2 \<and>
   potentialSeats ''101'' = 3 - 1"
proof -
  have "\<forall>d \<in> set [desk_at ''a'' ''101'' 0 0 12 4, desk_at ''b'' ''00'' 0 6 8 4].
          set (desk_type d) \<subseteq> {CHR ''0'', CHR ''1''}"
    by (simp add: desk_at_def)
  from C7_available_seats [OF this] show ?thesis
    by (simp add: desk_at_def count_char_def)
qed

subsection \<open>Validation before the call\<close>

lemma join_not_Nil: "ps \<noteq> [] \<Longrightarrow> hd ps \<noteq> [] \<Longrightarrow> join sep ps \<noteq> []"
  by (induction sep ps rule: join.induct) auto

lemma row_ok_first_cell:
  assumes ok: "row_ok numCols newRow cols ds" and pos: "0 < numCols"
    and t: "\<forall>d \<in> set ds. desk_type d \<noteq> []"
  shows "newRow \<noteq> [] \<and> hd newRow \<noteq> []"
proof -
  from ok pos have ne: "newRow \<noteq> []" by (auto simp: row_ok_def)
  then have hd: "hd newRow = newRow ! 0" by (simp add: hd_conv_nth)
  show ?thesis
  proof (cases "0 \<in> set cols")
    case True
    then obtain j where j: "j < length cols" "cols ! j = 0" by (auto simp: in_set_conv_nth)
    with ok have "newRow ! 0 = desk_type (ds ! j)" "ds ! j \<in> set ds"
      by (auto simp: row_ok_def)
    with t ne hd show ?thesis by auto
  next
    case False
    with ok ne have "newRow ! 0 = ''--''" by (auto simp: row_ok_def)
    with ne hd show ?thesis by simp
  qed
qed

lemma matrix_not_Nil:
  assumes ne: "objs \<noteq> []"
    and t: "\<forall>d \<in> set objs. desk_type d \<noteq> [] \<and> desk_type d \<noteq> ''--''"
  shows "matrix (convertObjectsToLayoutMatrix objs) \<noteq> []"
    and "layout (convertObjectsToLayoutMatrix objs) \<noteq> []"
proof -
  let ?rows = "group_rows objs"
  from t have t1: "\<forall>d \<in> set objs. desk_type d \<noteq> ''--''" by simp
  from convert_nonempty [OF ne t1] obtain numCols grid colss where
      g: "grid_ok numCols grid colss ?rows" and pos: "0 < numCols"
      and lay: "layout (convertObjectsToLayoutMatrix objs) = pad_rows grid"
      and mat: "matrix (convertObjectsToLayoutMatrix objs) = join [CHR 0x0A] (map (join '','') (pad_rows grid))"
    by blast
  have rows_ne: "?rows \<noteq> []" using group_rows_not_Nil [OF ne] .
  then have gl: "0 < length grid" "0 < length ?rows" using grid_ok_lengths [OF g] by auto
  then have pne: "pad_rows grid \<noteq> []" using length_pad_rows [of grid] by auto
  show "layout (convertObjectsToLayoutMatrix objs) \<noteq> []" using pne lay by simp
  have "\<forall>d \<in> set (?rows ! 0). desk_type d \<noteq> []"
  proof
    fix d assume "d \<in> set (?rows ! 0)"
    with gl(2) have "d \<in> set (concat ?rows)" by auto
    then have "d \<in> set objs" by (simp only: set_concat_group_rows)
    with t show "desk_type d \<noteq> []" by simp
  qed
  from row_ok_first_cell [OF grid_ok_nth [OF g gl(2)] pos this]
  have first: "grid ! 0 \<noteq> []" "hd (grid ! 0) \<noteq> []" by auto
  have p0: "pad_rows grid ! 0 = grid ! 0 @ replicate (max_len grid - length (grid ! 0)) ''--''"
    by (rule pad_rows_nth [OF gl(1)])
  have "hd (pad_rows grid) = pad_rows grid ! 0" using pne by (simp add: hd_conv_nth)
  with p0 first have "hd (pad_rows grid) \<noteq> []" "hd (hd (pad_rows grid)) \<noteq> []" by auto
  then have "join '','' (hd (pad_rows grid)) \<noteq> []" by (rule join_not_Nil)
  then have "hd (map (join '','') (pad_rows grid)) \<noteq> []" using pne by (simp add: hd_map)
  moreover have "map (join '','') (pad_rows grid) \<noteq> []" using pne by simp
  ultimately have "join [CHR 0x0A] (map (join '','') (pad_rows grid)) \<noteq> []"
    using join_not_Nil by blast
  then show "matrix (convertObjectsToLayoutMatrix objs) \<noteq> []" using mat by simp
qed

text \<open>
  C6. A generation request (no arrangement yet) on desks with non-empty type codes other
  than the filler: when the desk layout is empty, when it is not but the roster is empty,
  and when neither is empty but the roster has more names than there are available seats,
  the handler ends with the message of that case (empty layout, empty roster,
  insufficient seats with the two counts), makes no call of
  \<open>generateSeatingArrangement\<close>, throws nothing and is no longer loading.
\<close>

theorem C6_validation_aborts_before_the_call:
  assumes gen: "app_finalArrangement st = None"
    and t: "\<forall>d \<in> set (app_layoutObjects st). desk_type d \<noteq> [] \<and> desk_type d \<noteq> ''--''"
  shows "(app_layoutObjects st = [] \<longrightarrow>
            calls (handleGenerateClick generateContent JSON_parse st) = [] \<and>
            app_error (state (handleGenerateClick generateContent JSON_parse st)) = Some Msg_EmptyLayout) \<and>
         (app_layoutObjects st \<noteq> [] \<and> parse_roster (app_students st) = [] \<longrightarrow>
            calls (handleGenerateClick generateContent JSON_parse st) = [] \<and>
            app_error (state (handleGenerateClick generateContent JSON_parse st)) = Some Msg_EmptyRoster) \<and>
         (app_layoutObjects st \<noteq> [] \<and> parse_roster (app_students st) \<noteq> [] \<and>
          int (length (parse_roster (app_students st))) > count_seats (app_layoutObjects st) 0 \<longrightarrow>
            calls (handleGenerateClick generateContent JSON_parse st) = [] \<and>
            app_error (state (handleGenerateClick generateContent JSON_parse st)) =
              Some (Msg_InsufficientSeats (length (parse_roster (app_students st)))
                      (count_seats (app_layoutObjects st) 0))) \<and>
         (app_layoutObjects st = [] \<or> parse_roster (app_students st) = [] \<or>
          int (length (parse_roster (app_students st))) > count_seats (app_layoutObjects st) 0 \<longrightarrow>
            calls (handleGenerateClick generateContent JSON_parse st) = [] \<and>
            thrown (handleGenerateClick generateContent JSON_parse st) = None \<and>
            \<not> app_isLoading (state (handleGenerateClick generateContent JSON_parse st)) \<and>
            app_error (state (handleGenerateClick generateContent JSON_parse st)) \<noteq> None)"
proof (cases "app_layoutObjects st = []")
  case True
  then have "handleGenerateClick generateContent JSON_parse st =
      abort_with (st \<lparr> app_error := None, app_isLoading := True, app_seatingChart := None \<rparr>) Msg_EmptyLayout"
    by (simp add: handleGenerateClick_def convert_empty Let_def)
  with True show ?thesis by (simp add: abort_with_def)
next
  case False
  note m = matrix_not_Nil [OF False t]
  show ?thesis
  proof (cases "parse_roster (app_students st) = []")
    case True
    then have "handleGenerateClick generateContent JSON_parse st =
        abort_with (st \<lparr> app_error := None, app_isLoading := True, app_seatingChart := None,
                         app_finalArrangement := None \<rparr>) Msg_EmptyRoster"
      using m gen by (simp add: handleGenerateClick_def Let_def)
    with False True show ?thesis by (simp add: abort_with_def)
  next
    case roster: False
    show ?thesis
    proof (cases "int (length (parse_roster (app_students st))) > count_seats (app_layoutObjects st) 0")
      case True
      then have "handleGenerateClick generateContent JSON_parse st =
          abort_with (st \<lparr> app_error := None, app_isLoading := True, app_seatingChart := None,
                           app_finalArrangement := None \<rparr>)
            (Msg_InsufficientSeats (length (parse_roster (app_students st)))
               (count_seats (app_layoutObjects st) 0))"
        using m gen roster by (simp add: handleGenerateClick_def Let_def)
      with False roster True show ?thesis by (simp add: abort_with_def)
    next
      case False
      with \<open>app_layoutObjects st \<noteq> []\<close> roster show ?thesis by simp
    qed
  qed
qed

lemma app_one_single_facts:
  "parse_roster (app_students app_one_single) = [''Alice'', ''Bob'']"
  "count_seats (app_layoutObjects app_one_single) 0 = 1"
  by code_simp+

theorem C6_validation_aborts_before_the_call_witness:
  "calls (handleGenerateClick (ai_answers ''{}'') (parse_table []) app_one_single) = [] \<and>
   app_error (state (handleGenerateClick (ai_answers ''{}'') (parse_table []) app_one_single)) =
     Some (Msg_InsufficientSeats 2 1)"
proof -
  have gen: "app_finalArrangement app_one_single = None"
    by (simp add: app_one_single_def)
  have t: "\<forall>d \<in> set (app_layoutObjects app_one_single). desk_type d \<noteq> [] \<and> desk_type d \<noteq> ''--''"
    by (simp add: app_one_single_def desk_at_def)
  have ne: "app_layoutObjects app_one_single \<noteq> []"
    by (simp add: app_one_single_def)
  from C6_validation_aborts_before_the_call [OF gen t, of "ai_answers ''{}''" "parse_table []"] ne
  show ?thesis
    by (simp add: app_one_single_facts)
qed

subsection \<open>Applying the seating matrix\<close>

lemma update_first_distinct:
  "distinct (map key xs) \<Longrightarrow>
   update_first (\<lambda>a. key a = k) f xs = map (\<lambda>a. if key a = k then f a else a) xs"
proof (induction xs)
  case Nil
  then show ?case by simp
next
  case (Cons a xs)
  show ?case
  proof (cases "key a = k")
    case True
    with Cons.prems have "\<forall>b \<in> set xs. key b \<noteq> k" by (auto simp: image_iff)
    then have "map (\<lambda>a. if key a = k then f a else a) xs = xs"
      by (simp add: map_idI)
    with True show ?thesis by simp
  next
    case False
    with Cons show ?thesis by simp
  qed
qed

lemma desk_id_cell_update [simp]: "desk_id (cell_update pm r c cell obj) = desk_id obj"
  by (simp add: cell_update_def split: json.splits)

lemma apply_cell_map:
  assumes "distinct (map desk_id objs)"
  shows "apply_cell pm r c cell objs = map (cell_update pm r c cell) objs"
proof (cases cell)
  case (JArr seats)
  show ?thesis
  proof (cases "pm_get pm (pos_key r c)")
    case None
    with JArr show ?thesis by (simp add: apply_cell_def cell_update_def map_idI)
  next
    case (Some objectId)
    show ?thesis
    proof (cases "objectId = []")
      case True
      with JArr Some show ?thesis by (auto simp: apply_cell_def cell_update_def intro!: map_idI [symmetric])
    next
      case False
      with JArr Some have "apply_cell pm r c cell objs =
          update_first (\<lambda>obj. desk_id obj = objectId)
            (\<lambda>targetObject. targetObject \<lparr> students := Some (map seat_name seats) \<rparr>) objs"
        by (simp add: apply_cell_def)
      also have "\<dots> = map (\<lambda>a. if desk_id a = objectId
          then a \<lparr> students := Some (map seat_name seats) \<rparr> else a) objs"
        by (rule update_first_distinct [OF assms])
      also have "\<dots> = map (cell_update pm r c cell) objs"
        using JArr Some False by (auto simp: cell_update_def)
      finally show ?thesis .
    qed
  qed
qed (simp_all add: apply_cell_def cell_update_def map_idI split: option.splits)

lemma distinct_ids_cell_update:
  "distinct (map desk_id objs) \<Longrightarrow> distinct (map desk_id (map (cell_update pm r c cell) objs))"
  by (simp add: comp_def)

lemma apply_cells_map:
  assumes "distinct (map desk_id objs)"
  shows "apply_cells pm r c cells objs = map (obj_cells pm r c cells) objs"
  using assms
proof (induction cells arbitrary: c objs)
  case Nil
  then show ?case by (simp add: map_idI)
next
  case (Cons cell cells)
  have "apply_cells pm r c (cell # cells) objs =
      apply_cells pm r (c + 1) cells (map (cell_update pm r c cell) objs)"
    by (simp add: apply_cell_map [OF Cons.prems])
  also have "\<dots> = map (obj_cells pm r (c + 1) cells) (map (cell_update pm r c cell) objs)"
    by (rule Cons.IH [OF distinct_ids_cell_update [OF Cons.prems]])
  finally show ?case by (simp add: comp_def)
qed

lemma desk_id_obj_cells [simp]: "desk_id (obj_cells pm r c cells obj) = desk_id obj"
  by (induction cells arbitrary: c obj) auto

lemma apply_rows_map:
  assumes "distinct (map desk_id objs)"
  shows "apply_rows pm r (map JArr cellss) objs = Inr (map (obj_rows pm r cellss) objs)"
  using assms
proof (induction cellss arbitrary: r objs)
  case Nil
  then show ?case by (simp add: map_idI)
next
  case (Cons cells cellss)
  have d: "distinct (map desk_id (map (obj_cells pm r 0 cells) objs))"
    using Cons.prems by (simp add: comp_def)
  have "apply_rows pm r (map JArr (cells # cellss)) objs =
      apply_rows pm (r + 1) (map JArr cellss) (map (obj_cells pm r 0 cells) objs)"
    by (simp add: apply_cells_map [OF Cons.prems])
  also have "\<dots> = Inr (map (obj_rows pm (r + 1) cellss) (map (obj_cells pm r 0 cells) objs))"
    by (rule Cons.IH [OF d])
  finally show ?case by (simp add: comp_def)
qed

lemma owns_cell_update [simp]: "owns pm (cell_update pm' r' c' cell obj) r c = owns pm obj r c"
  by (simp add: owns_def)

lemma cell_update_not_owned: "\<not> owns pm obj r c \<Longrightarrow> cell_update pm r c cell obj = obj"
  by (simp add: owns_def cell_update_def split: json.splits)

lemma nth_Cons_diff: "a < b \<Longrightarrow> (x # xs) ! (b - a) = xs ! (b - (a + 1))"
proof -
  assume "a < b"
  then have "b - a = Suc (b - (a + 1))" by arith
  then show ?thesis by simp
qed

lemma obj_cells_miss:
  assumes "\<forall>c'. c \<le> c' \<and> c' < c + length cells \<longrightarrow> \<not> owns pm obj r c'"
  shows "obj_cells pm r c cells obj = obj"
  using assms
proof (induction cells arbitrary: c)
  case Nil
  then show ?case by simp
next
  case (Cons cell cells)
  from Cons.prems have "\<not> owns pm obj r c" by simp
  then have "cell_update pm r c cell obj = obj" by (rule cell_update_not_owned)
  moreover have "obj_cells pm r (c + 1) cells obj = obj"
    using Cons.prems by (intro Cons.IH) auto
  ultimately show ?case by simp
qed

lemma obj_cells_hit:
  assumes own: "owns pm obj r c'" and only: "\<forall>c''. owns pm obj r c'' \<longrightarrow> c'' = c'"
    and range: "c \<le> c'" "c' < c + length cells"
  shows "obj_cells pm r c cells obj = cell_update pm r c' (cells ! (c' - c)) obj"
  using range
proof (induction cells arbitrary: c)
  case Nil
  then show ?case by simp
next
  case (Cons cell cells)
  show ?case
  proof (cases "c' = c")
    case True
    have "obj_cells pm r (c + 1) cells (cell_update pm r c cell obj) = cell_update pm r c cell obj"
    proof (rule obj_cells_miss, intro allI impI)
      fix c'' assume "c + 1 \<le> c'' \<and> c'' < c + 1 + length cells"
      then have "c'' \<noteq> c'" using True by simp
      with only show "\<not> owns pm (cell_update pm r c cell obj) r c''" by auto
    qed
    with True show ?thesis by simp
  next
    case False
    with only have "\<not> owns pm obj r c" by auto
    then have same: "cell_update pm r c cell obj = obj" by (rule cell_update_not_owned)
    from False Cons.prems have "c + 1 \<le> c'" "c' < c + 1 + length cells" by simp_all
    from Cons.IH [OF this] have "obj_cells pm r (c + 1) cells obj =
        cell_update pm r c' (cells ! (c' - (c + 1))) obj" .
    moreover have "(cell # cells) ! (c' - c) = cells ! (c' - (c + 1))"
      using False Cons.prems(1) by (intro nth_Cons_diff) simp
    ultimately show ?thesis using same by simp
  qed
qed

lemma owns_obj_cells [simp]: "owns pm (obj_cells pm' r' c' cells obj) r c = owns pm obj r c"
  by (simp add: owns_def)

lemma obj_rows_miss:
  assumes "\<forall>r' c'. r \<le> r' \<and> r' < r + length cellss \<and> c' < length (cellss ! (r' - r)) \<longrightarrow>
             \<not> owns pm obj r' c'"
  shows "obj_rows pm r cellss obj = obj"
  using assms
proof (induction cellss arbitrary: r)
  case Nil
  then show ?case by simp
next
  case (Cons cells cellss)
  have "obj_cells pm r 0 cells obj = obj"
  proof (rule obj_cells_miss, intro allI impI)
    fix c' assume "0 \<le> c' \<and> c' < 0 + length cells"
    then have "r \<le> r \<and> r < r + length (cells # cellss) \<and> c' < length ((cells # cellss) ! (r - r))"
      by simp
    with Cons.prems show "\<not> owns pm obj r c'" by blast
  qed
  moreover have "obj_rows pm (r + 1) cellss obj = obj"
  proof (rule Cons.IH, intro allI impI)
    fix r' c' assume a: "r + 1 \<le> r' \<and> r' < r + 1 + length cellss \<and> c' < length (cellss ! (r' - (r + 1)))"
    then have "(cells # cellss) ! (r' - r) = cellss ! (r' - (r + 1))"
      by (intro nth_Cons_diff) simp
    with a have "r \<le> r' \<and> r' < r + length (cells # cellss) \<and> c' < length ((cells # cellss) ! (r' - r))"
      by simp
    with Cons.prems show "\<not> owns pm obj r' c'" by blast
  qed
  ultimately show ?case by simp
qed

lemma obj_rows_hit:
  assumes own: "owns pm obj r' c'"
    and only: "\<forall>r'' c''. owns pm obj r'' c'' \<longrightarrow> r'' = r' \<and> c'' = c'"
    and range: "r \<le> r'" "r' < r + length cellss" "c' < length (cellss ! (r' - r))"
  shows "obj_rows pm r cellss obj = cell_update pm r' c' (cellss ! (r' - r) ! c') obj"
  using range
proof (induction cellss arbitrary: r)
  case Nil
  then show ?case by simp
next
  case (Cons cells cellss)
  show ?case
  proof (cases "r' = r")
    case True
    have only_c: "\<forall>c''. owns pm obj r c'' \<longrightarrow> c'' = c'" using only by blast
    have "obj_cells pm r 0 cells obj = cell_update pm r c' (cells ! (c' - 0)) obj"
      using own Cons.prems(3) True by (intro obj_cells_hit [OF _ only_c]) auto
    moreover have "obj_rows pm (r + 1) cellss (cell_update pm r c' (cells ! c') obj) =
        cell_update pm r c' (cells ! c') obj"
    proof (rule obj_rows_miss, intro allI impI)
      fix r'' c'' assume "r + 1 \<le> r'' \<and> r'' < r + 1 + length cellss \<and> c'' < length (cellss ! (r'' - (r + 1)))"
      then have "r'' \<noteq> r'" using True by simp
      with only show "\<not> owns pm (cell_update pm r c' (cells ! c') obj) r'' c''" by auto
    qed
    ultimately show ?thesis using True by simp
  next
    case False
    have "obj_cells pm r 0 cells obj = obj"
    proof (rule obj_cells_miss, intro allI impI)
      fix c'' assume "0 \<le> c'' \<and> c'' < 0 + length cells"
      from only False show "\<not> owns pm obj r c''" by auto
    qed
    moreover from False Cons.prems have nth: "(cells # cellss) ! (r' - r) = cellss ! (r' - (r + 1))"
      by (intro nth_Cons_diff) simp
    moreover from False Cons.prems nth have "r + 1 \<le> r'" "r' < r + 1 + length cellss"
        "c' < length (cellss ! (r' - (r + 1)))" by simp_all
    from Cons.IH [OF this] have "obj_rows pm (r + 1) cellss obj =
        cell_update pm r' c' (cellss ! (r' - (r + 1)) ! c') obj" .
    ultimately show ?thesis by simp
  qed
qed

lemma rows_as_arrays:
  assumes "\<forall>row \<in> set rows. \<exists>cells. row = JArr cells"
  shows "rows = map JArr (map cells_of rows)"
  using assms by (induction rows) (auto simp: cells_of_def)

lemma cell_at_arrays:
  "cell_at (map JArr cellss) r c =
     (if r < length cellss \<and> c < length (cellss ! r) then Some (cellss ! r ! c) else None)"
  by (simp add: cell_at_def)

lemma cell_update_students: "\<exists>s. cell_update pm r c cell obj = obj \<lparr> students := s \<rparr>"
proof (cases "cell_update pm r c cell obj = obj")
  case True
  then have "cell_update pm r c cell obj = obj \<lparr> students := students obj \<rparr>" by simp
  then show ?thesis by blast
next
  case False
  then show ?thesis by (auto simp: cell_update_def split: json.splits if_splits)
qed

lemma obj_cells_students: "\<exists>s. obj_cells pm r c cells obj = obj \<lparr> students := s \<rparr>"
proof (induction cells arbitrary: c obj)
  case Nil
  have "obj = obj \<lparr> students := students obj \<rparr>" by simp
  then have "\<exists>s. obj = obj \<lparr> students := s \<rparr>" by (rule exI)
  then show ?case by simp
next
  case (Cons cell cells)
  obtain s where s: "cell_update pm r c cell obj = obj \<lparr> students := s \<rparr>"
    using cell_update_students by blast
  obtain s' where "obj_cells pm r (c + 1) cells (obj \<lparr> students := s \<rparr>) =
      (obj \<lparr> students := s \<rparr>) \<lparr> students := s' \<rparr>"
    using Cons.IH by blast
  with s have "obj_cells pm r c (cell # cells) obj = obj \<lparr> students := s' \<rparr>" by simp
  then show ?case by blast
qed

lemma obj_rows_students: "\<exists>s. obj_rows pm r cellss obj = obj \<lparr> students := s \<rparr>"
proof (induction cellss arbitrary: r obj)
  case Nil
  have "obj = obj \<lparr> students := students obj \<rparr>" by simp
  then have "\<exists>s. obj = obj \<lparr> students := s \<rparr>" by (rule exI)
  then show ?case by simp
next
  case (Cons cells cellss)
  obtain s where s: "obj_cells pm r 0 cells obj = obj \<lparr> students := s \<rparr>"
    using obj_cells_students by blast
  obtain s' where "obj_rows pm (r + 1) cellss (obj \<lparr> students := s \<rparr>) =
      (obj \<lparr> students := s \<rparr>) \<lparr> students := s' \<rparr>"
    using Cons.IH by blast
  with s have "obj_rows pm r (cells # cellss) obj = obj \<lparr> students := s' \<rparr>" by simp
  then show ?case by blast
qed

lemma obj_rows_result:
  assumes inj: "\<forall>k k' v. pm_get pm k = Some v \<and> pm_get pm k' = Some v \<longrightarrow> k = k'"
    and nid: "desk_id obj \<noteq> []"
  shows "obj_rows pm 0 cellss (obj \<lparr> students := Some [] \<rparr>) =
           obj \<lparr> students := students (obj_rows pm 0 cellss (obj \<lparr> students := Some [] \<rparr>)) \<rparr>"
    and "\<forall>r c seats. pm_get pm (pos_key r c) = Some (desk_id obj) \<and>
           cell_at (map JArr cellss) r c = Some (JArr seats) \<longrightarrow>
           students (obj_rows pm 0 cellss (obj \<lparr> students := Some [] \<rparr>)) = Some (map seat_name seats)"
    and "(\<forall>r c seats. pm_get pm (pos_key r c) = Some (desk_id obj) \<longrightarrow>
            cell_at (map JArr cellss) r c \<noteq> Some (JArr seats)) \<longrightarrow>
         students (obj_rows pm 0 cellss (obj \<lparr> students := Some [] \<rparr>)) = Some []"
proof -
  let ?o = "obj \<lparr> students := Some [] \<rparr>"
  obtain s where s: "obj_rows pm 0 cellss ?o = ?o \<lparr> students := s \<rparr>"
    using obj_rows_students by blast
  then show "obj_rows pm 0 cellss ?o = obj \<lparr> students := students (obj_rows pm 0 cellss ?o) \<rparr>"
    by simp
  have only: "\<forall>r'' c''. owns pm ?o r'' c'' \<longrightarrow> r'' = r \<and> c'' = c" if "owns pm ?o r c" for r c
  proof (intro allI impI)
    fix r'' c'' assume "owns pm ?o r'' c''"
    with that inj have "pos_key r'' c'' = pos_key r c" unfolding owns_def by blast
    then show "r'' = r \<and> c'' = c" by (simp add: pos_key_inj)
  qed
  have hit: "obj_rows pm 0 cellss ?o = cell_update pm r c (cellss ! r ! c) ?o"
    if "owns pm ?o r c" "r < length cellss" "c < length (cellss ! r)" for r c
    using obj_rows_hit [OF that(1) only [OF that(1)], of 0 cellss] that(2,3) by simp
  show "\<forall>r c seats. pm_get pm (pos_key r c) = Some (desk_id obj) \<and>
           cell_at (map JArr cellss) r c = Some (JArr seats) \<longrightarrow>
           students (obj_rows pm 0 cellss ?o) = Some (map seat_name seats)"
  proof (intro allI impI)
    fix r c seats
    assume a: "pm_get pm (pos_key r c) = Some (desk_id obj) \<and>
        cell_at (map JArr cellss) r c = Some (JArr seats)"
    then have own: "owns pm ?o r c" by (simp add: owns_def)
    from a have in_range: "r < length cellss" "c < length (cellss ! r)" and cell: "cellss ! r ! c = JArr seats"
      by (auto simp: cell_at_arrays split: if_splits)
    from hit [OF own in_range] cell a nid
    show "students (obj_rows pm 0 cellss ?o) = Some (map seat_name seats)"
      by (simp add: cell_update_def)
  qed
  show "(\<forall>r c seats. pm_get pm (pos_key r c) = Some (desk_id obj) \<longrightarrow>
            cell_at (map JArr cellss) r c \<noteq> Some (JArr seats)) \<longrightarrow>
         students (obj_rows pm 0 cellss ?o) = Some []"
  proof
    assume none: "\<forall>r c seats. pm_get pm (pos_key r c) = Some (desk_id obj) \<longrightarrow>
            cell_at (map JArr cellss) r c \<noteq> Some (JArr seats)"
    show "students (obj_rows pm 0 cellss ?o) = Some []"
    proof (cases "\<exists>r c. owns pm ?o r c \<and> r < length cellss \<and> c < length (cellss ! r)")
      case True
      then obtain r c where rc: "owns pm ?o r c" "r < length cellss" "c < length (cellss ! r)"
        by blast
      from rc(1) have "pm_get pm (pos_key r c) = Some (desk_id obj)" by (simp add: owns_def)
      with none have "\<forall>seats. cell_at (map JArr cellss) r c \<noteq> Some (JArr seats)"
        by blast
      with rc(2,3) have "\<forall>seats. cellss ! r ! c \<noteq> JArr seats"
        by (simp add: cell_at_arrays)
      then have "cell_update pm r c (cellss ! r ! c) ?o = ?o"
        by (cases "cellss ! r ! c") (simp_all add: cell_update_def)
      with hit [OF rc] show ?thesis by simp
    next
      case False
      then have "obj_rows pm 0 cellss ?o = ?o"
        by (intro obj_rows_miss) auto
      then show ?thesis by simp
    qed
  qed
qed

lemma positionMap_injective:
  assumes ids: "distinct (map desk_id objs)" and t: "\<forall>d \<in> set objs. desk_type d \<noteq> ''--''"
  shows "\<forall>k k' v. pm_get (positionMap (convertObjectsToLayoutMatrix objs)) k = Some v \<and>
                  pm_get (positionMap (convertObjectsToLayoutMatrix objs)) k' = Some v \<longrightarrow> k = k'"
proof (cases "objs = []")
  case True
  then show ?thesis by (simp add: convert_empty pm_get_def)
next
  case False
  from convert_nonempty [OF False t] obtain numCols grid colss where
      g: "grid_ok numCols grid colss (group_rows objs)"
      and pm: "positionMap (convertObjectsToLayoutMatrix objs) = grid_entries 0 colss (group_rows objs)"
    by blast
  show ?thesis
    unfolding pm using pm_get_unique_key [OF g distinct_ids_rows [OF ids]] by blast
qed

lemma scenario_alice_bob:
  "app_finalArrangement
     (state (handleGenerateClick (ai_answers alice_bob_text) (parse_table answer_alice_bob) app_one_double)) =
   Some [(desk_at ''desk-initial-0'' ''11'' 0 0 8 4) \<lparr> students := Some [Some ''Alice'', Some ''Bob''] \<rparr>]"
  by code_simp

text \<open>
  C8.  Applying a seating matrix (an array of rows that are arrays) to desks with distinct
  non-empty ids changes nothing but the \<open>students\<close> fields.  A desk that owns a cell
  \<open>(r, c)\<close> of the position map whose content is an array of seats gets that array with
  every entry that is not a string turned into \<open>null\<close>; a desk that owns no such cell
  ends with the empty list.  In the scenario of one double desk and the answer
  \<open>{seating: [[["Alice","Bob"]]], error: null}\<close> the desk gets \<open>["Alice","Bob"]\<close>.
\<close>

theorem C8_apply_is_projection:
  assumes ids: "distinct (map desk_id objs)"
    and nid: "\<forall>d \<in> set objs. desk_id d \<noteq> []"
    and t: "\<forall>d \<in> set objs. desk_type d \<noteq> ''--''"
    and arr: "\<forall>row \<in> set rows. \<exists>cells. row = JArr cells"
  shows "(\<exists>populated.
            apply_seating (positionMap (convertObjectsToLayoutMatrix objs)) (JArr rows) objs = Inr populated \<and>
            length populated = length objs \<and>
            (\<forall>i < length objs.
               populated ! i = (objs ! i) \<lparr> students := students (populated ! i) \<rparr> \<and>
               (\<forall>r c seats.
                  pm_get (positionMap (convertObjectsToLayoutMatrix objs)) (pos_key r c) =
                    Some (desk_id (objs ! i)) \<and>
                  cell_at rows r c = Some (JArr seats) \<longrightarrow>
                  students (populated ! i) = Some (map seat_name seats)) \<and>
               ((\<forall>r c seats.
                   pm_get (positionMap (convertObjectsToLayoutMatrix objs)) (pos_key r c) =
                     Some (desk_id (objs ! i)) \<longrightarrow>
                   cell_at rows r c \<noteq> Some (JArr seats)) \<longrightarrow>
                students (populated ! i) = Some []))) \<and>
         app_finalArrangement
           (state (handleGenerateClick (ai_answers alice_bob_text) (parse_table answer_alice_bob)
                     app_one_double)) =
           Some [(desk_at ''desk-initial-0'' ''11'' 0 0 8 4)
                   \<lparr> students := Some [Some ''Alice'', Some ''Bob''] \<rparr>]"
proof (rule conjI)
  let ?pm = "positionMap (convertObjectsToLayoutMatrix objs)"
  let ?cellss = "map cells_of rows"
  let ?start = "map (\<lambda>obj. obj \<lparr> students := Some [] \<rparr>) objs"
  let ?pop = "map (obj_rows ?pm 0 ?cellss) ?start"
  have rows: "rows = map JArr ?cellss" by (rule rows_as_arrays [OF arr])
  have d: "distinct (map desk_id ?start)" using ids by (simp add: comp_def)
  have "apply_seating ?pm (JArr rows) objs = apply_rows ?pm 0 rows ?start"
    by (simp add: apply_seating_def)
  also have "\<dots> = apply_rows ?pm 0 (map JArr ?cellss) ?start" using rows by simp
  also have "\<dots> = Inr ?pop" by (rule apply_rows_map [OF d])
  finally have res: "apply_seating ?pm (JArr rows) objs = Inr ?pop" .
  have len: "length ?pop = length objs" by simp
  have each: "?pop ! i = (objs ! i) \<lparr> students := students (?pop ! i) \<rparr> \<and>
               (\<forall>r c seats.
                  pm_get ?pm (pos_key r c) = Some (desk_id (objs ! i)) \<and>
                  cell_at rows r c = Some (JArr seats) \<longrightarrow>
                  students (?pop ! i) = Some (map seat_name seats)) \<and>
               ((\<forall>r c seats.
                   pm_get ?pm (pos_key r c) = Some (desk_id (objs ! i)) \<longrightarrow>
                   cell_at rows r c \<noteq> Some (JArr seats)) \<longrightarrow>
                students (?pop ! i) = Some [])" if i: "i < length objs" for i
  proof -
    have p: "?pop ! i = obj_rows ?pm 0 ?cellss ((objs ! i) \<lparr> students := Some [] \<rparr>)"
      using i by simp
    have n: "desk_id (objs ! i) \<noteq> []" using nid i by simp
    note r = obj_rows_result [OF positionMap_injective [OF ids t] n, of ?cellss]
    show ?thesis
      unfolding p using r [unfolded rows [symmetric]] by blast
  qed
  show "\<exists>populated.
            apply_seating ?pm (JArr rows) objs = Inr populated \<and>
            length populated = length objs \<and>
            (\<forall>i < length objs.
               populated ! i = (objs ! i) \<lparr> students := students (populated ! i) \<rparr> \<and>
               (\<forall>r c seats.
                  pm_get ?pm (pos_key r c) = Some (desk_id (objs ! i)) \<and>
                  cell_at rows r c = Some (JArr seats) \<longrightarrow>
                  students (populated ! i) = Some (map seat_name seats)) \<and>
               ((\<forall>r c seats.
                   pm_get ?pm (pos_key r c) = Some (desk_id (objs ! i)) \<longrightarrow>
                   cell_at rows r c \<noteq> Some (JArr seats)) \<longrightarrow>
                students (populated ! i) = Some []))"
    using res len each by (intro exI [of _ ?pop]) blast
qed (rule scenario_alice_bob)

theorem C8_apply_is_projection_witness:
  "\<exists>populated.
     apply_seating (positionMap (convertObjectsToLayoutMatrix (app_layoutObjects app_one_double)))
       (JArr [JArr [JArr [JStr ''Alice'', JNum 7, JStr ''Bob'']]]) (app_layoutObjects app_one_double) =
       Inr populated \<and>
     students (populated ! 0) = Some [Some ''Alice'', None, Some ''Bob'']"
proof -
  let ?objs = "app_layoutObjects app_one_double"
  let ?rows = "[JArr [JArr [JStr ''Alice'', JNum 7, JStr ''Bob'']]]"
  have ids: "distinct (map desk_id ?objs)" and nid: "\<forall>d \<in> set ?objs. desk_id d \<noteq> []"
    and t: "\<forall>d \<in> set ?objs. desk_type d \<noteq> ''--''"
    by (simp_all add: app_one_double_def desk_at_def)
  have arr: "\<forall>row \<in> set ?rows. \<exists>cells. row = JArr cells" by simp
  have len: "0 < length ?objs" by (simp add: app_one_double_def)
  have own: "pm_get (positionMap (convertObjectsToLayoutMatrix ?objs)) (pos_key 0 0) =
      Some (desk_id (?objs ! 0))"
    by code_simp
  have cell: "cell_at ?rows 0 0 = Some (JArr [JStr ''Alice'', JNum 7, JStr ''Bob''])"
    by (simp add: cell_at_def)
  from C8_apply_is_projection [OF ids nid t arr] obtain populated where
      res: "apply_seating (positionMap (convertObjectsToLayoutMatrix ?objs)) (JArr ?rows) ?objs = Inr populated"
      and each: "\<forall>i < length ?objs.
         (\<forall>r c seats.
            pm_get (positionMap (convertObjectsToLayoutMatrix ?objs)) (pos_key r c) =
              Some (desk_id (?objs ! i)) \<and>
            cell_at ?rows r c = Some (JArr seats) \<longrightarrow>
            students (populated ! i) = Some (map seat_name seats))"
    by blast
  from each len own cell
  have "students (populated ! 0) = Some (map seat_name [JStr ''Alice'', JNum 7, JStr ''Bob''])"
    by blast
  with res show ?thesis by simp
qed

section \<open>Serialising, parsing and serialising again\<close>

























end
